theory Spec2Isabelle
  imports Main "HOL-Library.Word"
begin

unbundle bit_operations_syntax

section \<open>Constants and macros of main.hpp\<close>

text \<open>
  The time scale is 5 minutes per unit. The four durations are unsigned literals in the
  source; they are converted to the 16-bit timer or to the loop counter where they are used.
\<close>

definition TRAVEL_TIME :: nat where "TRAVEL_TIME = 6"
definition ONE_HOUR :: nat where "ONE_HOUR = 12"
definition FIVE_HOUR :: nat where "FIVE_HOUR = 60"
definition MAX_TIME :: nat where "MAX_TIME = 864"

definition WAITING_INC :: "64 word" where "WAITING_INC = 0x0000000000000001"
definition UNLOADING_INC :: "64 word" where "UNLOADING_INC = 0x0000000000010000"
definition TRAVELING_INC :: "64 word" where "TRAVELING_INC = 0x0000000100000000"
definition MINING_INC :: "64 word" where "MINING_INC = 0x0001000000000000"

definition WAITING_MASK :: "64 word" where "WAITING_MASK = 0x000000000000FFFF"
definition UNLOADING_MASK :: "64 word" where "UNLOADING_MASK = 0x00000000FFFF0000"
definition TRAVELING_MASK :: "64 word" where "TRAVELING_MASK = 0x0000FFFF00000000"
definition MINING_MASK :: "64 word" where "MINING_MASK = 0xFFFF000000000000"

text \<open>\<^verbatim>\<open>#define RETRIEVE_TIME(DATA, MASK, SHIFT) ((DATA & MASK) >> SHIFT)\<close>\<close>

definition RETRIEVE_TIME :: "64 word \<Rightarrow> 64 word \<Rightarrow> nat \<Rightarrow> 64 word" where
  "RETRIEVE_TIME DATA MASK SHIFT = drop_bit SHIFT (DATA AND MASK)"

text \<open>The four fields of a packed \<open>total_time\<close>, read as the logging and the test code read them.\<close>

definition waiting_time :: "64 word \<Rightarrow> nat" where
  "waiting_time tt = unat (RETRIEVE_TIME tt WAITING_MASK 0)"
definition unloading_time :: "64 word \<Rightarrow> nat" where
  "unloading_time tt = unat (RETRIEVE_TIME tt UNLOADING_MASK 16)"
definition traveling_time :: "64 word \<Rightarrow> nat" where
  "traveling_time tt = unat (RETRIEVE_TIME tt TRAVELING_MASK 32)"
definition mining_time :: "64 word \<Rightarrow> nat" where
  "mining_time tt = unat (RETRIEVE_TIME tt MINING_MASK 48)"

definition ledger_sum :: "64 word \<Rightarrow> nat" where
  "ledger_sum tt = waiting_time tt + unloading_time tt + traveling_time tt + mining_time tt"

section \<open>Data model\<close>

datatype TruckState = Mining | TravelStation | Waiting | Unloading | TravelMining

record Station =
  queue :: "16 word"
  num_trucks_unloaded :: "16 word"

record Truck =
  state :: TruckState
  timer :: "16 word"
  total_time :: "64 word"
  station_idx :: nat

text \<open>
  What \<open>run_sim\<close> can throw, and the two undefined behaviours of the source that a
  caller could reach through the constructor's types: indexing an empty station vector
  (which is also the \<open>%=\<close> by a size of zero) and dereferencing \<open>min_element\<close> of an
  empty range.
\<close>

datatype error =
  MinNotSelected
  | TimeMismatch
  | OutOfRange

text \<open>
  The source's random source is the global pair \<open>gen\<close>/\<open>rmt\<close>. Its state is modelled
  as the sequence of values that the calls \<open>rmt(gen)\<close> are going to return from now on;
  a draw takes the head of the sequence. \<open>rmt_range\<close> is the contract of
  \<open>std::uniform_int_distribution<>(ONE_HOUR, FIVE_HOUR)\<close>.
\<close>

type_synonym gen = "nat \<Rightarrow> nat"

definition rmt :: "gen \<Rightarrow> nat \<times> gen" where
  "rmt g = (g 0, \<lambda>i. g (Suc i))"

definition rmt_range :: "gen \<Rightarrow> bool" where
  "rmt_range g \<longleftrightarrow> (\<forall>i. ONE_HOUR \<le> g i \<and> g i \<le> FIVE_HOUR)"

record Simulation =
  curr_station_idx :: nat
  sim_total_time :: "16 word"
  debug :: bool
  stations :: "Station list"
  trucks :: "Truck list"

section \<open>Station\<close>

definition Station_ctor :: Station where
  "Station_ctor = \<lparr>queue = 0, num_trucks_unloaded = 0\<rparr>"

definition get_queue :: "Station \<Rightarrow> 16 word" where
  "get_queue s = queue s"

definition increment_queue :: "Station \<Rightarrow> Station" where
  "increment_queue s = s\<lparr>queue := queue s + 1\<rparr>"

text \<open>\<^verbatim>\<open>this->queue -= (this->queue > 0);\<close>\<close>

definition decrement_queue :: "Station \<Rightarrow> Station" where
  "decrement_queue s = s\<lparr>queue := queue s - (if queue s > 0 then 1 else 0)\<rparr>"

definition increment_trucks_unloaded :: "Station \<Rightarrow> Station" where
  "increment_trucks_unloaded s = s\<lparr>num_trucks_unloaded := num_trucks_unloaded s + 1\<rparr>"

section \<open>Truck\<close>

definition Truck_ctor :: "gen \<Rightarrow> Truck \<times> gen" where
  "Truck_ctor g =
     (let (d, g') = rmt g
      in (\<lparr>state = Mining, timer = of_nat d, total_time = 0, station_idx = 0\<rparr>, g'))"

text \<open>
  \<open>Truck::run\<close>. The arguments \<open>stations\<close> and \<open>curr_idx\<close> are references in the source
  and are returned updated, as is the random source. The final \<open>else\<close> of the source
  (a state outside the enumeration) has no counterpart: \<open>TruckState\<close> has exactly the
  five values tested before it.
\<close>

definition truck_run ::
  "Truck \<Rightarrow> Station list \<Rightarrow> nat \<Rightarrow> gen \<Rightarrow> error + (Truck \<times> Station list \<times> nat \<times> gen)" where
  "truck_run tr sts curr_idx g =
    (case state tr of
       Mining \<Rightarrow>
         (let tr1 = tr\<lparr>timer := timer tr - 1, total_time := total_time tr + MINING_INC\<rparr>
          in if timer tr1 = 0
             then Inr (tr1\<lparr>timer := of_nat TRAVEL_TIME, state := TravelStation\<rparr>, sts, curr_idx, g)
             else Inr (tr1, sts, curr_idx, g))
     | TravelStation \<Rightarrow>
         (let tr1 = tr\<lparr>timer := timer tr - 1, total_time := total_time tr + TRAVELING_INC\<rparr>
          in if timer tr1 = 0
             then
               (if curr_idx < length sts
                then
                  (let tr2 = tr1\<lparr>station_idx := curr_idx\<rparr>;
                       tr3 = tr2\<lparr>timer := get_queue (sts ! curr_idx)\<rparr>;
                       sts' = sts[curr_idx := increment_queue (sts ! curr_idx)];
                       curr_idx' = (curr_idx + 1) mod length sts';
                       tr4 = tr3\<lparr>state := (if timer tr3 \<noteq> 0 then Waiting else Unloading)\<rparr>
                   in Inr (tr4, sts', curr_idx', g))
                else Inl OutOfRange)
             else Inr (tr1, sts, curr_idx, g))
     | Waiting \<Rightarrow>
         (let tr1 = tr\<lparr>timer := timer tr - 1, total_time := total_time tr + WAITING_INC\<rparr>
          in if timer tr1 = 0
             then Inr (tr1\<lparr>state := Unloading\<rparr>, sts, curr_idx, g)
             else Inr (tr1, sts, curr_idx, g))
     | Unloading \<Rightarrow>
         (let tr1 = tr\<lparr>total_time := total_time tr + UNLOADING_INC\<rparr>
          in if station_idx tr1 < length sts
             then
               (let sts' = sts[station_idx tr1 := increment_trucks_unloaded (sts ! station_idx tr1)]
                in Inr (tr1\<lparr>timer := of_nat TRAVEL_TIME, state := TravelMining\<rparr>, sts', curr_idx, g))
             else Inl OutOfRange)
     | TravelMining \<Rightarrow>
         (let tr1 = tr\<lparr>timer := timer tr - 1, total_time := total_time tr + TRAVELING_INC\<rparr>
          in if timer tr1 = 0
             then (let (d, g') = rmt g
                   in Inr (tr1\<lparr>timer := of_nat d, state := Mining\<rparr>, sts, curr_idx, g'))
             else Inr (tr1, sts, curr_idx, g)))"

section \<open>The consistency checks of testing.cpp\<close>

text \<open>
  \<open>std::min_element\<close> with the comparison \<open>a.get_queue() < b.get_queue()\<close>: the first
  station with the smallest queue; \<open>None\<close> stands for the end iterator of an empty range.
\<close>

fun min_element :: "Station list \<Rightarrow> Station option" where
  "min_element [] = None"
| "min_element (s # ss) =
     Some (fold (\<lambda>x smallest. if get_queue x < get_queue smallest then x else smallest) ss s)"

definition compare_idx_val_to_actual_min :: "Station list \<Rightarrow> nat \<Rightarrow> error + unit" where
  "compare_idx_val_to_actual_min sts curr_idx =
     (case min_element sts of
        None \<Rightarrow> Inl OutOfRange
      | Some m \<Rightarrow>
          if curr_idx < length sts
          then (if get_queue m \<noteq> get_queue (sts ! curr_idx) then Inl MinNotSelected else Inr ())
          else Inl OutOfRange)"

text \<open>The sum is computed in \<open>size_t\<close>, here 64 bits wide, and compared with \<open>max_time\<close>.\<close>

definition compare_total_time_to_max_time :: "Truck \<Rightarrow> nat \<Rightarrow> error + unit" where
  "compare_total_time_to_max_time truck max_time =
     (let tt = total_time truck;
          cumulative_time =
            RETRIEVE_TIME tt WAITING_MASK 0 + RETRIEVE_TIME tt UNLOADING_MASK 16 +
            RETRIEVE_TIME tt TRAVELING_MASK 32 + RETRIEVE_TIME tt MINING_MASK 48
      in if cumulative_time \<noteq> of_nat max_time then Inl TimeMismatch else Inr ())"

section \<open>Simulation\<close>

text \<open>\<open>std::vector<Truck>(n)\<close> constructs its \<open>n\<close> trucks in order, each drawing its first mining time.\<close>

fun make_trucks :: "nat \<Rightarrow> gen \<Rightarrow> Truck list \<times> gen" where
  "make_trucks 0 g = ([], g)"
| "make_trucks (Suc n) g =
     (let (tr, g') = Truck_ctor g;
          (trs, g'') = make_trucks n g'
      in (tr # trs, g''))"

definition Simulation_ctor :: "16 word \<Rightarrow> 16 word \<Rightarrow> bool \<Rightarrow> gen \<Rightarrow> Simulation \<times> gen" where
  "Simulation_ctor num_trucks num_stations dbg g =
     (let (trs, g') = make_trucks (unat num_trucks) g
      in (\<lparr>curr_station_idx = 0,
           sim_total_time = of_nat MAX_TIME,
           debug = dbg,
           stations = replicate (unat num_stations) Station_ctor,
           trucks = trs\<rparr>, g'))"

text \<open>
  The inner loop of \<open>run_sim\<close>: \<open>for(auto& truck: trucks)\<close>, each truck's \<open>run\<close> followed
  by the debug check. An exception leaves the loop at once.
\<close>

fun run_trucks ::
  "bool \<Rightarrow> Truck list \<Rightarrow> Station list \<Rightarrow> nat \<Rightarrow> gen
     \<Rightarrow> error + (Truck list \<times> Station list \<times> nat \<times> gen)" where
  "run_trucks dbg [] sts idx g = Inr ([], sts, idx, g)"
| "run_trucks dbg (tr # trs) sts idx g =
     (case truck_run tr sts idx g of
        Inl e \<Rightarrow> Inl e
      | Inr (tr', sts', idx', g') \<Rightarrow>
          (case (if dbg then compare_idx_val_to_actual_min sts' idx' else Inr ()) of
             Inl e \<Rightarrow> Inl e
           | Inr _ \<Rightarrow>
               (case run_trucks dbg trs sts' idx' g' of
                  Inl e \<Rightarrow> Inl e
                | Inr (trs', sts'', idx'', g'') \<Rightarrow> Inr (tr' # trs', sts'', idx'', g''))))"

text \<open>The outer loop \<open>while(sim_time) { ...; sim_time--; }\<close>, on the counter \<open>sim_time\<close>.\<close>

fun sim_loop :: "nat \<Rightarrow> Simulation \<Rightarrow> gen \<Rightarrow> error + (Simulation \<times> gen)" where
  "sim_loop 0 sim g = Inr (sim, g)"
| "sim_loop (Suc sim_time) sim g =
     (case run_trucks (debug sim) (trucks sim) (stations sim) (curr_station_idx sim) g of
        Inl e \<Rightarrow> Inl e
      | Inr (trs, sts, idx, g') \<Rightarrow>
          sim_loop sim_time
            (sim\<lparr>trucks := trs, stations := map decrement_queue sts, curr_station_idx := idx\<rparr>) g')"

text \<open>The logging loop over the trucks: only its debug check is modelled, not the printing.\<close>

fun log_trucks :: "bool \<Rightarrow> Truck list \<Rightarrow> error + unit" where
  "log_trucks dbg [] = Inr ()"
| "log_trucks dbg (tr # trs) =
     (case (if dbg then compare_total_time_to_max_time tr MAX_TIME else Inr ()) of
        Inl e \<Rightarrow> Inl e
      | Inr _ \<Rightarrow> log_trucks dbg trs)"

definition run_sim :: "Simulation \<Rightarrow> gen \<Rightarrow> error + (Simulation \<times> gen)" where
  "run_sim sim g =
     (case sim_loop (unat (sim_total_time sim)) sim g of
        Inl e \<Rightarrow> Inl e
      | Inr (sim', g') \<Rightarrow>
          (case log_trucks (debug sim') (trucks sim') of
             Inl e \<Rightarrow> Inl e
           | Inr _ \<Rightarrow> Inr (sim', g')))"

text \<open>
  The body of the loop of \<open>main\<close>: construct the simulation from the three inputs and
  run it.
\<close>

definition mining_sim :: "16 word \<Rightarrow> 16 word \<Rightarrow> bool \<Rightarrow> gen \<Rightarrow> error + (Simulation \<times> gen)" where
  "mining_sim num_trucks num_stations dbg g =
     (let (sim, g') = Simulation_ctor num_trucks num_stations dbg g in run_sim sim g')"

text \<open>\<open>k\<close> consecutive calls of \<open>Truck::run\<close> on one truck.\<close>

fun truck_runs ::
  "nat \<Rightarrow> Truck \<Rightarrow> Station list \<Rightarrow> nat \<Rightarrow> gen \<Rightarrow> error + (Truck \<times> Station list \<times> nat \<times> gen)" where
  "truck_runs 0 tr sts idx g = Inr (tr, sts, idx, g)"
| "truck_runs (Suc k) tr sts idx g =
     (case truck_run tr sts idx g of
        Inl e \<Rightarrow> Inl e
      | Inr (tr', sts', idx', g') \<Rightarrow> truck_runs k tr' sts' idx' g')"

section \<open>Reachable configurations of the two loops\<close>

text \<open>
  A configuration of \<open>run_sim\<close> between two calls of \<open>Truck::run\<close>: the number of
  completed ticks, the trucks that have already run in the current tick, the trucks that
  have not, the stations, the dispatcher cursor and the random source. The debug checks
  are left out of the relation: they change no state, and a configuration is reachable
  whether or not anyone looks at it.
\<close>

inductive reach ::
  "Simulation \<Rightarrow> gen \<Rightarrow> nat \<Rightarrow> Truck list \<Rightarrow> Truck list \<Rightarrow> Station list \<Rightarrow> nat \<Rightarrow> gen \<Rightarrow> bool"
  for sim0 :: Simulation and g0 :: gen where
  start: "reach sim0 g0 0 [] (trucks sim0) (stations sim0) (curr_station_idx sim0) g0"
| truck: "reach sim0 g0 t dn (tr # todo) sts idx g \<Longrightarrow> t < unat (sim_total_time sim0) \<Longrightarrow>
          truck_run tr sts idx g = Inr (tr', sts', idx', g') \<Longrightarrow>
          reach sim0 g0 t (dn @ [tr']) todo sts' idx' g'"
| tick: "reach sim0 g0 t dn [] sts idx g \<Longrightarrow> t < unat (sim_total_time sim0) \<Longrightarrow>
         reach sim0 g0 (Suc t) [] dn (map decrement_queue sts) idx g"


section \<open>Vocabulary of the invariants\<close>

text \<open>The number whose four base-65536 digits are the ledger fields.\<close>

definition pack :: "nat \<Rightarrow> nat \<Rightarrow> nat \<Rightarrow> nat \<Rightarrow> nat" where
  "pack a b c d = a + 65536 * (b + 65536 * (c + 65536 * d))"

text \<open>
  What holds of a truck's timer between two of its steps: positive in the four states
  that count it down, at most the travel time while travelling, and 0 while unloading.
\<close>

definition timer_ok :: "Truck \<Rightarrow> bool" where
  "timer_ok tr =
     (case state tr of
        Mining \<Rightarrow> timer tr \<noteq> 0
      | TravelStation \<Rightarrow> timer tr \<noteq> 0 \<and> unat (timer tr) \<le> TRAVEL_TIME
      | Waiting \<Rightarrow> timer tr \<noteq> 0
      | Unloading \<Rightarrow> timer tr = 0
      | TravelMining \<Rightarrow> timer tr \<noteq> 0 \<and> unat (timer tr) \<le> TRAVEL_TIME)"

text \<open>
  A truck that has unloaded \<open>u\<close> times after \<open>t\<close> of its steps has spent at least
  25 ticks on each completed round (12 mining, 6 + 6 travelling, 1 unloading), the last
  return trip excepted.
\<close>

definition cycle_ok :: "nat \<Rightarrow> Truck \<Rightarrow> bool" where
  "cycle_ok t tr =
     (let u = unloading_time (total_time tr); r = unat (timer tr)
      in case state tr of
           Mining \<Rightarrow> 25 * u + 12 \<le> t + min r 12
         | TravelStation \<Rightarrow> 25 * u + 18 \<le> t + r
         | Waiting \<Rightarrow> 25 * u + 18 \<le> t
         | Unloading \<Rightarrow> 25 * u + 18 \<le> t
         | TravelMining \<Rightarrow> 25 * u \<le> t + r)"

definition truck_inv :: "nat \<Rightarrow> nat \<Rightarrow> Truck \<Rightarrow> bool" where
  "truck_inv M t tr \<longleftrightarrow>
     station_idx tr < M \<and> ledger_sum (total_time tr) = t \<and> timer_ok tr \<and> cycle_ok t tr"

text \<open>
  The queue of a station counts down in step with the timers of the trucks waiting there.
  A truck that waits at station \<open>s\<close> holds one level of that station's queue: its timer
  if it has not yet run in the current tick, its timer plus one if it has (it has counted
  down and the station has not). A truck that turned to unloading in the current tick
  still holds level 1.
\<close>

definition lvl_done :: "Truck \<Rightarrow> (nat \<times> nat) option" where
  "lvl_done tr =
     (if state tr = Waiting \<or> state tr = Unloading
      then Some (station_idx tr, Suc (unat (timer tr))) else None)"

definition lvl_todo :: "Truck \<Rightarrow> (nat \<times> nat) option" where
  "lvl_todo tr = (if state tr = Waiting then Some (station_idx tr, unat (timer tr)) else None)"

definition cnt :: "Truck list \<Rightarrow> Truck list \<Rightarrow> nat \<Rightarrow> nat \<Rightarrow> nat" where
  "cnt dn todo s l =
     length (filter (\<lambda>tr. lvl_done tr = Some (s, l)) dn) +
     length (filter (\<lambda>tr. lvl_todo tr = Some (s, l)) todo)"

text \<open>Every level from 1 to the queue length is held by exactly one truck, and no other level is held.\<close>

definition levels_ok :: "Truck list \<Rightarrow> Truck list \<Rightarrow> Station list \<Rightarrow> bool" where
  "levels_ok dn todo sts \<longleftrightarrow>
     (\<forall>s l. cnt dn todo s l =
        (if s < length sts \<and> 1 \<le> l \<and> l \<le> unat (queue (sts ! s)) then 1 else 0))"

definition queues :: "Station list \<Rightarrow> nat list" where
  "queues sts = map (\<lambda>s. unat (queue s)) sts"

text \<open>
  Read from the cursor onwards and around, the queue lengths ascend, and none exceeds
  the one at the cursor by more than 1.
\<close>

definition shape :: "nat \<Rightarrow> nat list \<Rightarrow> bool" where
  "shape idx qs \<longleftrightarrow>
     idx < length qs \<and> sorted (drop idx qs @ take idx qs) \<and> (\<forall>y \<in> set qs. y \<le> qs ! idx + 1)"

definition unloading_at :: "nat \<Rightarrow> Truck list \<Rightarrow> nat" where
  "unloading_at s trs = length (filter (\<lambda>tr. state tr = Unloading \<and> station_idx tr = s) trs)"

text \<open>A station unloads at most one truck per tick.\<close>

definition unloaded_ok :: "nat \<Rightarrow> Truck list \<Rightarrow> Station list \<Rightarrow> bool" where
  "unloaded_ok t todo sts \<longleftrightarrow>
     (\<forall>s < length sts. unat (num_trucks_unloaded (sts ! s)) + unloading_at s todo \<le> Suc t)"

definition unloaded_total :: "Station list \<Rightarrow> nat" where
  "unloaded_total sts = sum_list (map (\<lambda>s. unat (num_trucks_unloaded s)) sts)"

definition unloading_total :: "Truck list \<Rightarrow> nat" where
  "unloading_total trs = sum_list (map (\<lambda>tr. unloading_time (total_time tr)) trs)"

text \<open>
  The invariant of a configuration: \<open>t\<close> ticks are complete, the trucks \<open>dn\<close> have run
  in tick \<open>t + 1\<close> and the trucks \<open>todo\<close> have not.
\<close>

definition sim_inv ::
  "nat \<Rightarrow> Truck list \<Rightarrow> Truck list \<Rightarrow> Station list \<Rightarrow> nat \<Rightarrow> gen \<Rightarrow> bool" where
  "sim_inv t dn todo sts idx g \<longleftrightarrow>
     rmt_range g \<and> t \<le> MAX_TIME \<and> length dn + length todo < 65536 \<and>
     (\<forall>tr \<in> set dn. truck_inv (length sts) (Suc t) tr) \<and>
     (\<forall>tr \<in> set todo. truck_inv (length sts) t tr) \<and>
     levels_ok dn todo sts \<and> shape idx (queues sts) \<and>
     unloaded_ok t todo sts \<and> unloaded_total sts = unloading_total (dn @ todo)"

section \<open>The schedule as the specification words it\<close>

text \<open>
  The clock of the specification, to be compared with \<open>run_sim\<close>: in one tick every
  truck's transition function is invoked once, in insertion order (truck 0, truck 1,
  ...), and then every station's queue takes the uniform decrement once; a run is the
  tick repeated as many times as the horizon says. The specification gives the clock no
  failure mode, so a transition that fails leaves the configuration as it is.
\<close>

definition spec_truck_step ::
  "Truck list \<times> Station list \<times> nat \<times> gen \<Rightarrow> nat \<Rightarrow> Truck list \<times> Station list \<times> nat \<times> gen" where
  "spec_truck_step cfg i =
     (case cfg of (trs, sts, idx, g) \<Rightarrow>
        (case truck_run (trs ! i) sts idx g of
           Inr (tr', sts', idx', g') \<Rightarrow> (trs[i := tr'], sts', idx', g')
         | Inl e \<Rightarrow> cfg))"

definition spec_tick ::
  "Truck list \<times> Station list \<times> nat \<times> gen \<Rightarrow> Truck list \<times> Station list \<times> nat \<times> gen" where
  "spec_tick cfg =
     (case fold (\<lambda>i c. spec_truck_step c i) [0..<length (fst cfg)] cfg of
        (trs, sts, idx, g) \<Rightarrow> (trs, map decrement_queue sts, idx, g))"

section \<open>The packed ledger\<close>

lemma mask_consts:
  "WAITING_MASK = push_bit 0 (mask 16)"
  "UNLOADING_MASK = push_bit 16 (mask 16)"
  "TRAVELING_MASK = push_bit 32 (mask 16)"
  "MINING_MASK = push_bit 48 (mask 16)"
  by (simp_all add: WAITING_MASK_def UNLOADING_MASK_def TRAVELING_MASK_def MINING_MASK_def
      mask_eq_exp_minus_1 push_bit_eq_mult)

lemma retrieve_field:
  "drop_bit s ((w :: 64 word) AND push_bit s (mask 16)) = take_bit 16 (drop_bit s w)"
  by (rule bit_eqI) (auto simp add: bit_simps dest: bit_imp_le_length)

lemma unat_field:
  "unat (take_bit 16 (drop_bit s (w :: 64 word))) = (unat w div 2 ^ s) mod 65536"
proof -
  have "unat (take_bit 16 (drop_bit s w)) = take_bit 16 (drop_bit s (unat w))"
    by (simp only: unsigned_take_bit_eq unat_drop_bit_eq)
  then show ?thesis
    by (simp add: take_bit_eq_mod drop_bit_eq_div)
qed

lemma field_nat:
  "unat (RETRIEVE_TIME tt (push_bit s (mask 16)) s) = (unat tt div 2 ^ s) mod 65536"
  unfolding RETRIEVE_TIME_def retrieve_field by (rule unat_field)

lemma waiting_time_nat: "waiting_time tt = unat tt mod 65536"
  using field_nat[of tt 0] by (simp only: waiting_time_def mask_consts) simp

lemma unloading_time_nat: "unloading_time tt = (unat tt div 65536) mod 65536"
  using field_nat[of tt 16] by (simp only: unloading_time_def mask_consts) simp

lemma traveling_time_nat: "traveling_time tt = (unat tt div 4294967296) mod 65536"
  using field_nat[of tt 32] by (simp only: traveling_time_def mask_consts) simp

lemma mining_time_nat: "mining_time tt = (unat tt div 281474976710656) mod 65536"
  using field_nat[of tt 48] by (simp only: mining_time_def mask_consts) simp

lemma unat64_bound: "unat (w :: 64 word) < 18446744073709551616"
  using unsigned_less[of w, where 'a=nat] by simp

lemma unat_add_inc:
  "unat ((w::64 word) + k) = (unat w + unat k) mod 18446744073709551616"
  by (simp add: unat_word_ariths)

lemma traveling_time_nest: "traveling_time tt = (unat tt div 65536 div 65536) mod 65536"
  by (simp add: traveling_time_nat div_mult2_eq[symmetric])

lemma mining_time_nest: "mining_time tt = (unat tt div 65536 div 65536 div 65536) mod 65536"
  by (simp add: mining_time_nat div_mult2_eq[symmetric])

lemma unat_pack:
  "unat tt = pack (waiting_time tt) (unloading_time tt) (traveling_time tt) (mining_time tt)"
proof -
  let ?x = "unat tt"
  have d: "?x div 65536 div 65536 div 65536 < 65536"
    using unat64_bound[of tt] by (simp add: div_mult2_eq[symmetric] less_mult_imp_div_less)
  have m: "mining_time tt = ?x div 65536 div 65536 div 65536"
    using d by (simp add: mining_time_nest)
  show ?thesis
    unfolding pack_def waiting_time_nat unloading_time_nat traveling_time_nest m
    by (simp only: mult_div_mod_eq add.commute[of "_ mod _"])
qed

lemma fields_lt:
  "waiting_time tt < 65536" "unloading_time tt < 65536"
  "traveling_time tt < 65536" "mining_time tt < 65536"
  by (simp_all add: waiting_time_nat unloading_time_nat traveling_time_nat mining_time_nat)

lemma pack_lt:
  "a < 65536 \<Longrightarrow> b < 65536 \<Longrightarrow> c < 65536 \<Longrightarrow> d < 65536 \<Longrightarrow> pack a b c d < 18446744073709551616"
  unfolding pack_def by simp

lemma pack_mod: "a < 65536 \<Longrightarrow> (a + 65536 * y) mod 65536 = (a::nat)"
  by simp

lemma pack_div: "a < 65536 \<Longrightarrow> (a + 65536 * y) div 65536 = (y::nat)"
  by simp

lemma fields_of_pack:
  assumes "a < 65536" "b < 65536" "c < 65536" "d < 65536" and "unat tt = pack a b c d"
  shows "waiting_time tt = a \<and> unloading_time tt = b \<and> traveling_time tt = c \<and> mining_time tt = d"
proof -
  have 1: "waiting_time tt = a"
    unfolding waiting_time_nat assms(5) pack_def using assms(1) by (rule pack_mod)
  have 2: "unloading_time tt = b"
    unfolding unloading_time_nat assms(5) pack_def
    by (simp only: pack_div[OF assms(1)] pack_mod[OF assms(2)])
  have 3: "traveling_time tt = c"
    unfolding traveling_time_nest assms(5) pack_def
    by (simp only: pack_div[OF assms(1)] pack_div[OF assms(2)] pack_mod[OF assms(3)])
  have 4: "mining_time tt = d"
    unfolding mining_time_nest assms(5) pack_def
    by (simp only: pack_div[OF assms(1)] pack_div[OF assms(2)] pack_div[OF assms(3)]
        mod_less[OF assms(4)])
  show ?thesis using 1 2 3 4 by simp
qed

lemma unat_incs:
  "unat WAITING_INC = pack 1 0 0 0" "unat UNLOADING_INC = pack 0 1 0 0"
  "unat TRAVELING_INC = pack 0 0 1 0" "unat MINING_INC = pack 0 0 0 1"
  by (simp_all add: pack_def WAITING_INC_def UNLOADING_INC_def TRAVELING_INC_def MINING_INC_def)

lemma pack_add: "pack a b c d + pack a' b' c' d' = pack (a + a') (b + b') (c + c') (d + d')"
  by (simp add: pack_def algebra_simps)

lemma ledger_add:
  assumes inc: "unat k = pack a b c d"
    and lt: "waiting_time tt + a < 65536" "unloading_time tt + b < 65536"
      "traveling_time tt + c < 65536" "mining_time tt + d < 65536"
  shows "waiting_time (tt + k) = waiting_time tt + a \<and>
         unloading_time (tt + k) = unloading_time tt + b \<and>
         traveling_time (tt + k) = traveling_time tt + c \<and>
         mining_time (tt + k) = mining_time tt + d"
proof -
  let ?p = "pack (waiting_time tt + a) (unloading_time tt + b) (traveling_time tt + c)
              (mining_time tt + d)"
  have "unat (tt + k) = (unat tt + unat k) mod 18446744073709551616"
    by (rule unat_add_inc)
  also have "unat tt + unat k = ?p"
    by (simp only: inc unat_pack[of tt] pack_add)
  also have "?p mod 18446744073709551616 = ?p"
    using pack_lt[OF lt] by simp
  finally show ?thesis
    using fields_of_pack[OF lt] by blast
qed

section \<open>One step of a truck\<close>


lemma word16_dec: "(w :: 16 word) \<noteq> 0 \<Longrightarrow> unat (w - 1) = unat w - 1"
  by (simp add: unat_minus_one)

lemma word16_pos: "(w :: 16 word) \<noteq> 0 \<Longrightarrow> 0 < unat w"
  by (simp add: unat_gt_0)

lemma unat_travel: "unat (of_nat TRAVEL_TIME :: 16 word) = 6" "(of_nat TRAVEL_TIME :: 16 word) \<noteq> 0"
  by (simp_all add: TRAVEL_TIME_def)

lemma unat_draw:
  assumes "ONE_HOUR \<le> d" "d \<le> FIVE_HOUR"
  shows "unat (of_nat d :: 16 word) = d" "(of_nat d :: 16 word) \<noteq> 0"
proof -
  have d: "d < 2 ^ 16" using assms by (simp add: FIVE_HOUR_def)
  show u: "unat (of_nat d :: 16 word) = d"
    using d by (simp add: unat_of_nat)
  show "(of_nat d :: 16 word) \<noteq> 0"
    using u assms(1) by (auto simp add: ONE_HOUR_def)
qed

lemma rmt_range_rmt:
  "rmt_range g \<Longrightarrow> ONE_HOUR \<le> fst (rmt g) \<and> fst (rmt g) \<le> FIVE_HOUR \<and> rmt_range (snd (rmt g))"
  by (simp add: rmt_range_def rmt_def)

lemma ledger_sum_add:
  assumes "ledger_sum tt < 65535"
  shows "ledger_sum (tt + WAITING_INC) = Suc (ledger_sum tt)"
    "ledger_sum (tt + UNLOADING_INC) = Suc (ledger_sum tt)"
    "ledger_sum (tt + TRAVELING_INC) = Suc (ledger_sum tt)"
    "ledger_sum (tt + MINING_INC) = Suc (ledger_sum tt)"
  using assms ledger_add[OF unat_incs(1), of tt] ledger_add[OF unat_incs(2), of tt]
    ledger_add[OF unat_incs(3), of tt] ledger_add[OF unat_incs(4), of tt]
  by (simp_all add: ledger_sum_def)

lemma unloading_time_add:
  assumes "ledger_sum tt < 65535"
  shows "unloading_time (tt + WAITING_INC) = unloading_time tt"
    "unloading_time (tt + UNLOADING_INC) = Suc (unloading_time tt)"
    "unloading_time (tt + TRAVELING_INC) = unloading_time tt"
    "unloading_time (tt + MINING_INC) = unloading_time tt"
  using assms ledger_add[OF unat_incs(1), of tt] ledger_add[OF unat_incs(2), of tt]
    ledger_add[OF unat_incs(3), of tt] ledger_add[OF unat_incs(4), of tt]
  by (simp_all add: ledger_sum_def)

text \<open>What one step does, state by state.\<close>

lemma truck_run_Mining:
  "state tr = Mining \<Longrightarrow>
   truck_run tr sts idx g =
     Inr (if timer tr = 1
          then tr\<lparr>timer := of_nat TRAVEL_TIME, total_time := total_time tr + MINING_INC,
                  state := TravelStation\<rparr>
          else tr\<lparr>timer := timer tr - 1, total_time := total_time tr + MINING_INC\<rparr>,
          sts, idx, g)"
  by (simp add: truck_run_def Let_def)

lemma truck_run_TravelStation:
  "state tr = TravelStation \<Longrightarrow>
   truck_run tr sts idx g =
     (if timer tr = 1
      then (if idx < length sts
            then Inr (tr\<lparr>timer := queue (sts ! idx), total_time := total_time tr + TRAVELING_INC,
                         station_idx := idx,
                         state := (if queue (sts ! idx) \<noteq> 0 then Waiting else Unloading)\<rparr>,
                      sts[idx := (sts ! idx)\<lparr>queue := queue (sts ! idx) + 1\<rparr>],
                      Suc idx mod length sts, g)
            else Inl OutOfRange)
      else Inr (tr\<lparr>timer := timer tr - 1, total_time := total_time tr + TRAVELING_INC\<rparr>,
                sts, idx, g))"
  by (simp add: truck_run_def Let_def get_queue_def increment_queue_def)

lemma truck_run_Waiting:
  "state tr = Waiting \<Longrightarrow>
   truck_run tr sts idx g =
     Inr (if timer tr = 1
          then tr\<lparr>timer := 0, total_time := total_time tr + WAITING_INC, state := Unloading\<rparr>
          else tr\<lparr>timer := timer tr - 1, total_time := total_time tr + WAITING_INC\<rparr>,
          sts, idx, g)"
  by (simp add: truck_run_def Let_def)

lemma truck_run_Unloading:
  "state tr = Unloading \<Longrightarrow>
   truck_run tr sts idx g =
     (if station_idx tr < length sts
      then Inr (tr\<lparr>timer := of_nat TRAVEL_TIME, total_time := total_time tr + UNLOADING_INC,
                   state := TravelMining\<rparr>,
                sts[station_idx tr := (sts ! station_idx tr)
                      \<lparr>num_trucks_unloaded := num_trucks_unloaded (sts ! station_idx tr) + 1\<rparr>],
                idx, g)
      else Inl OutOfRange)"
  by (simp add: truck_run_def Let_def increment_trucks_unloaded_def)

lemma truck_run_TravelMining:
  "state tr = TravelMining \<Longrightarrow>
   truck_run tr sts idx g =
     (if timer tr = 1
      then Inr (tr\<lparr>timer := of_nat (fst (rmt g)), total_time := total_time tr + TRAVELING_INC,
                   state := Mining\<rparr>, sts, idx, snd (rmt g))
      else Inr (tr\<lparr>timer := timer tr - 1, total_time := total_time tr + TRAVELING_INC\<rparr>,
                sts, idx, g))"
  by (simp add: truck_run_def Let_def split: prod.splits)


lemma inv_Mining:
  assumes run: "truck_run tr sts idx g = Inr (tr', sts', idx', g')"
    and inv: "truck_inv M t tr" and t: "t < 65535" and st: "state tr = Mining"
  shows "truck_inv M (Suc t) tr'"
proof -
  have ls: "ledger_sum (total_time tr) < 65535" using inv t by (simp add: truck_inv_def)
  note L = ledger_sum_add[OF ls] unloading_time_add[OF ls]
  have nz: "timer tr \<noteq> 0" using inv st by (simp add: truck_inv_def timer_ok_def)
  have c: "25 * unloading_time (total_time tr) + 12 \<le> t + min (unat (timer tr)) 12"
    using inv st by (simp add: truck_inv_def cycle_ok_def)
  show ?thesis
  proof (cases "timer tr = 1")
    case True
    then have tr': "tr' = tr\<lparr>timer := of_nat TRAVEL_TIME, total_time := total_time tr + MINING_INC,
                  state := TravelStation\<rparr>"
      using run st by (simp add: truck_run_Mining)
    show ?thesis
      using inv c True unfolding tr' truck_inv_def timer_ok_def cycle_ok_def
      by (simp add: L unat_travel TRAVEL_TIME_def)
  next
    case False
    then have tr': "tr' = tr\<lparr>timer := timer tr - 1, total_time := total_time tr + MINING_INC\<rparr>"
      using run st by (simp add: truck_run_Mining)
    have "timer tr - 1 \<noteq> 0" using False by simp
    then show ?thesis
      using inv c st nz unfolding tr' truck_inv_def timer_ok_def cycle_ok_def
      by (simp add: L word16_dec) 
  qed
qed


lemma inv_TravelStation:
  assumes run: "truck_run tr sts idx g = Inr (tr', sts', idx', g')"
    and inv: "truck_inv (length sts) t tr" and t: "t < 65535" and st: "state tr = TravelStation"
  shows "truck_inv (length sts) (Suc t) tr'"
proof -
  have ls: "ledger_sum (total_time tr) < 65535" using inv t by (simp add: truck_inv_def)
  note L = ledger_sum_add[OF ls] unloading_time_add[OF ls]
  have nz: "timer tr \<noteq> 0" and le: "unat (timer tr) \<le> 6"
    using inv st by (simp_all add: truck_inv_def timer_ok_def TRAVEL_TIME_def)
  have c: "25 * unloading_time (total_time tr) + 18 \<le> t + unat (timer tr)"
    using inv st by (simp add: truck_inv_def cycle_ok_def)
  show ?thesis
  proof (cases "timer tr = 1")
    case True
    then have idx: "idx < length sts"
      and tr': "tr' = tr\<lparr>timer := queue (sts ! idx), total_time := total_time tr + TRAVELING_INC,
                         station_idx := idx,
                         state := (if queue (sts ! idx) \<noteq> 0 then Waiting else Unloading)\<rparr>"
      using run st by (simp_all add: truck_run_TravelStation split: if_splits)
    show ?thesis
      using inv c True idx unfolding tr' truck_inv_def timer_ok_def cycle_ok_def
      by (simp add: L)
  next
    case False
    then have tr': "tr' = tr\<lparr>timer := timer tr - 1, total_time := total_time tr + TRAVELING_INC\<rparr>"
      using run st by (simp add: truck_run_TravelStation)
    have "timer tr - 1 \<noteq> 0" using False by simp
    then show ?thesis
      using inv c st nz le word16_pos[OF nz] unfolding tr' truck_inv_def timer_ok_def cycle_ok_def
      by (simp add: L word16_dec TRAVEL_TIME_def) linarith?
  qed
qed

lemma inv_Waiting:
  assumes run: "truck_run tr sts idx g = Inr (tr', sts', idx', g')"
    and inv: "truck_inv M t tr" and t: "t < 65535" and st: "state tr = Waiting"
  shows "truck_inv M (Suc t) tr'"
proof -
  have ls: "ledger_sum (total_time tr) < 65535" using inv t by (simp add: truck_inv_def)
  note L = ledger_sum_add[OF ls] unloading_time_add[OF ls]
  have c: "25 * unloading_time (total_time tr) + 18 \<le> t"
    using inv st by (simp add: truck_inv_def cycle_ok_def)
  show ?thesis
  proof (cases "timer tr = 1")
    case True
    then have tr': "tr' = tr\<lparr>timer := 0, total_time := total_time tr + WAITING_INC, state := Unloading\<rparr>"
      using run st by (simp add: truck_run_Waiting)
    show ?thesis
      using inv c unfolding tr' truck_inv_def timer_ok_def cycle_ok_def
      by (simp add: L)
  next
    case False
    then have tr': "tr' = tr\<lparr>timer := timer tr - 1, total_time := total_time tr + WAITING_INC\<rparr>"
      using run st by (simp add: truck_run_Waiting)
    have "timer tr - 1 \<noteq> 0" using False by simp
    then show ?thesis
      using inv c st unfolding tr' truck_inv_def timer_ok_def cycle_ok_def
      by (simp add: L)
  qed
qed

lemma inv_Unloading:
  assumes run: "truck_run tr sts idx g = Inr (tr', sts', idx', g')"
    and inv: "truck_inv M t tr" and t: "t < 65535" and st: "state tr = Unloading"
  shows "truck_inv M (Suc t) tr'"
proof -
  have ls: "ledger_sum (total_time tr) < 65535" using inv t by (simp add: truck_inv_def)
  note L = ledger_sum_add[OF ls] unloading_time_add[OF ls]
  have c: "25 * unloading_time (total_time tr) + 18 \<le> t"
    using inv st by (simp add: truck_inv_def cycle_ok_def)
  have tr': "tr' = tr\<lparr>timer := of_nat TRAVEL_TIME, total_time := total_time tr + UNLOADING_INC,
                   state := TravelMining\<rparr>"
    using run st by (simp add: truck_run_Unloading split: if_splits)
  show ?thesis
    using inv c unfolding tr' truck_inv_def timer_ok_def cycle_ok_def
    by (simp add: L unat_travel TRAVEL_TIME_def)
qed

lemma inv_TravelMining:
  assumes run: "truck_run tr sts idx g = Inr (tr', sts', idx', g')"
    and inv: "truck_inv M t tr" and t: "t < 65535" and st: "state tr = TravelMining"
    and g: "rmt_range g"
  shows "truck_inv M (Suc t) tr'"
proof -
  have ls: "ledger_sum (total_time tr) < 65535" using inv t by (simp add: truck_inv_def)
  note L = ledger_sum_add[OF ls] unloading_time_add[OF ls]
  have nz: "timer tr \<noteq> 0" and le: "unat (timer tr) \<le> 6"
    using inv st by (simp_all add: truck_inv_def timer_ok_def TRAVEL_TIME_def)
  have c: "25 * unloading_time (total_time tr) \<le> t + unat (timer tr)"
    using inv st by (simp add: truck_inv_def cycle_ok_def)
  show ?thesis
  proof (cases "timer tr = 1")
    case True
    then have tr': "tr' = tr\<lparr>timer := of_nat (fst (rmt g)), total_time := total_time tr + TRAVELING_INC,
                   state := Mining\<rparr>"
      using run st by (simp add: truck_run_TravelMining)
    note d = rmt_range_rmt[OF g]
    have u: "unat (of_nat (fst (rmt g)) :: 16 word) = fst (rmt g)"
      and z: "(of_nat (fst (rmt g)) :: 16 word) \<noteq> 0"
      using d unat_draw by blast+
    show ?thesis
      using inv c True d unfolding tr' truck_inv_def timer_ok_def cycle_ok_def
      by (simp add: L u z ONE_HOUR_def)
  next
    case False
    then have tr': "tr' = tr\<lparr>timer := timer tr - 1, total_time := total_time tr + TRAVELING_INC\<rparr>"
      using run st by (simp add: truck_run_TravelMining)
    have "timer tr - 1 \<noteq> 0" using False by simp
    then show ?thesis
      using inv c st nz le word16_pos[OF nz] unfolding tr' truck_inv_def timer_ok_def cycle_ok_def
      by (simp add: L word16_dec TRAVEL_TIME_def) linarith?
  qed
qed

lemma truck_run_inv:
  assumes "truck_run tr sts idx g = Inr (tr', sts', idx', g')"
    and "truck_inv (length sts) t tr" and "t < 65535" and "rmt_range g"
  shows "truck_inv (length sts) (Suc t) tr'"
  using assms inv_Mining inv_TravelStation inv_Waiting inv_Unloading inv_TravelMining
  by (cases "state tr") blast+

lemma truck_run_total:
  assumes "station_idx tr < length sts" "idx < length sts"
  shows "\<exists>tr' sts' idx' g'. truck_run tr sts idx g = Inr (tr', sts', idx', g')"
  using assms
  by (cases "state tr")
    (simp_all add: truck_run_Mining truck_run_TravelStation truck_run_Waiting
      truck_run_Unloading truck_run_TravelMining)

lemma truck_run_frame:
  assumes "truck_run tr sts idx g = Inr (tr', sts', idx', g')" "idx < length sts"
  shows "length sts' = length sts \<and> idx' < length sts"
proof -
  have "0 < length sts" using assms(2) by linarith
  then have "Suc idx mod length sts < length sts" by (rule mod_less_divisor)
  then show ?thesis
  using assms
  by (cases "state tr")
    (auto simp add: truck_run_Mining truck_run_TravelStation truck_run_Waiting
      truck_run_Unloading truck_run_TravelMining split: if_splits)
qed

lemma truck_run_gen:
  assumes "truck_run tr sts idx g = Inr (tr', sts', idx', g')" "rmt_range g"
  shows "rmt_range g'"
  using assms rmt_range_rmt[of g]
  by (cases "state tr")
    (auto simp add: truck_run_Mining truck_run_TravelStation truck_run_Waiting
      truck_run_Unloading truck_run_TravelMining split: if_splits)

section \<open>Queue levels\<close>


lemma cnt_snoc:
  "cnt (dn @ [x]) todo s l = cnt dn todo s l + (if lvl_done x = Some (s, l) then 1 else 0)"
  by (simp add: cnt_def)

lemma cnt_Cons:
  "cnt dn (x # todo) s l = cnt dn todo s l + (if lvl_todo x = Some (s, l) then 1 else 0)"
  by (simp add: cnt_def)

lemma sum_indicator_le:
  assumes "finite A"
  shows "(\<Sum>l\<in>A. if f x = Some (s, l) then 1 else 0 :: nat) \<le> 1"
proof (cases "\<exists>l. f x = Some (s, l)")
  case True
  then obtain l0 where l0: "f x = Some (s, l0)" by blast
  have "(\<Sum>l\<in>A. if f x = Some (s, l) then 1 else 0 :: nat) = (\<Sum>l\<in>A. if l0 = l then 1 else 0)"
    by (rule sum.cong) (auto simp add: l0)
  also have "\<dots> \<le> 1" using assms by (simp add: sum.delta')
  finally show ?thesis .
next
  case False
  then show ?thesis by simp
qed

lemma sum_filter_le:
  assumes "finite A"
  shows "(\<Sum>l\<in>A. length (filter (\<lambda>x. f x = Some (s, l)) xs)) \<le> length xs"
proof (induction xs)
  case Nil
  then show ?case by simp
next
  case (Cons x xs)
  have "(\<Sum>l\<in>A. length (filter (\<lambda>x. f x = Some (s, l)) (x # xs))) =
        (\<Sum>l\<in>A. if f x = Some (s, l) then 1 else 0) +
        (\<Sum>l\<in>A. length (filter (\<lambda>x. f x = Some (s, l)) xs))"
    unfolding sum.distrib[symmetric] by (rule sum.cong) simp_all
  then show ?case
    using Cons.IH sum_indicator_le[OF assms, of f x s] by simp
qed

lemma cnt_bound:
  assumes "\<forall>l. 1 \<le> l \<and> l \<le> Q \<longrightarrow> cnt dn todo s l = 1"
  shows "Q \<le> length dn + length todo"
proof -
  have "Q = (\<Sum>l\<in>{1..Q}. cnt dn todo s l)"
    using assms by simp
  also have "\<dots> = (\<Sum>l\<in>{1..Q}. length (filter (\<lambda>tr. lvl_done tr = Some (s, l)) dn)) +
                  (\<Sum>l\<in>{1..Q}. length (filter (\<lambda>tr. lvl_todo tr = Some (s, l)) todo))"
    by (simp add: cnt_def sum.distrib)
  also have "\<dots> \<le> length dn + length todo"
    by (intro add_mono sum_filter_le) simp_all
  finally show ?thesis .
qed

lemma levels_queue_bound:
  assumes "levels_ok dn todo sts" "s < length sts"
  shows "unat (queue (sts ! s)) \<le> length dn + length todo"
  using assms by (intro cnt_bound[of _ dn todo s]) (simp add: levels_ok_def)


lemma levels_same:
  assumes lv: "levels_ok dn (tr # todo) sts"
    and a: "lvl_done tr' = lvl_todo tr"
    and q: "length sts' = length sts" "\<forall>s < length sts. queue (sts' ! s) = queue (sts ! s)"
  shows "levels_ok (dn @ [tr']) todo sts'"
  using lv q unfolding levels_ok_def cnt_snoc cnt_Cons a by auto

lemma word16_inc: "unat (w :: 16 word) < 65535 \<Longrightarrow> unat (w + 1) = Suc (unat w)"
  by (simp add: unat_word_ariths)

lemma levels_arrive:
  assumes lv: "levels_ok dn (tr # todo) sts"
    and a: "lvl_todo tr = None"
    and b: "lvl_done tr' = Some (idx, Suc (unat (queue (sts ! idx))))"
    and idx: "idx < length sts"
    and n: "length dn + length todo < 65535"
  shows "levels_ok (dn @ [tr']) todo (sts[idx := (sts ! idx)\<lparr>queue := queue (sts ! idx) + 1\<rparr>])"
proof -
  have lv': "levels_ok dn todo sts"
    using lv unfolding levels_ok_def cnt_Cons a by simp
  have "unat (queue (sts ! idx)) \<le> length dn + length todo"
    using levels_queue_bound[OF lv' idx] .
  then have inc: "unat (queue (sts ! idx) + 1) = Suc (unat (queue (sts ! idx)))"
    using n by (intro word16_inc) simp
  show ?thesis
    unfolding levels_ok_def cnt_snoc b
  proof (intro allI)
    fix s l
    have c: "cnt dn todo s l = (if s < length sts \<and> 1 \<le> l \<and> l \<le> unat (queue (sts ! s)) then 1 else 0)"
      using lv' by (simp add: levels_ok_def)
    show "cnt dn todo s l + (if Some (idx, Suc (unat (queue (sts ! idx)))) = Some (s, l) then 1 else 0) =
          (if s < length (sts[idx := (sts ! idx)\<lparr>queue := queue (sts ! idx) + 1\<rparr>]) \<and> 1 \<le> l \<and>
              l \<le> unat (queue (sts[idx := (sts ! idx)\<lparr>queue := queue (sts ! idx) + 1\<rparr>] ! s))
           then 1 else 0)"
    proof (cases "s = idx")
      case True
      then show ?thesis using idx inc c by auto
    next
      case False
      then show ?thesis using idx c by auto
    qed
  qed
qed

lemma levels_step:
  assumes run: "truck_run tr sts idx g = Inr (tr', sts', idx', g')"
    and lv: "levels_ok dn (tr # todo) sts"
    and tok: "timer_ok tr"
    and n: "length dn + length todo < 65535"
  shows "levels_ok (dn @ [tr']) todo sts'"
proof (cases "state tr")
  case Mining
  then show ?thesis
    using run
    by (intro levels_same[OF lv])
      (auto simp add: truck_run_Mining lvl_done_def lvl_todo_def split: if_splits)
next
  case TravelStation
  show ?thesis
  proof (cases "timer tr = 1")
    case True
    then have idx: "idx < length sts"
      and tr': "tr' = tr\<lparr>timer := queue (sts ! idx), total_time := total_time tr + TRAVELING_INC,
                         station_idx := idx,
                         state := (if queue (sts ! idx) \<noteq> 0 then Waiting else Unloading)\<rparr>"
      and sts': "sts' = sts[idx := (sts ! idx)\<lparr>queue := queue (sts ! idx) + 1\<rparr>]"
      using run TravelStation by (simp_all add: truck_run_TravelStation split: if_splits)
    show ?thesis
      unfolding sts' using TravelStation
      by (intro levels_arrive[OF lv _ _ idx n]) (simp_all add: tr' lvl_done_def lvl_todo_def)
  next
    case False
    then show ?thesis
      using run TravelStation
      by (intro levels_same[OF lv])
        (auto simp add: truck_run_TravelStation lvl_done_def lvl_todo_def split: if_splits)
  qed
next
  case Waiting
  then have nz: "timer tr \<noteq> 0" using tok by (simp add: timer_ok_def)
  have "Suc (unat (timer tr - 1)) = unat (timer tr)"
    using word16_dec[OF nz] word16_pos[OF nz] by simp
  then show ?thesis
    using run Waiting
    by (intro levels_same[OF lv])
      (auto simp add: truck_run_Waiting lvl_done_def lvl_todo_def split: if_splits)
next
  case Unloading
  then show ?thesis
    using run
    by (intro levels_same[OF lv])
      (auto simp add: truck_run_Unloading lvl_done_def lvl_todo_def nth_list_update split: if_splits)
next
  case TravelMining
  then show ?thesis
    using run
    by (intro levels_same[OF lv])
      (auto simp add: truck_run_TravelMining lvl_done_def lvl_todo_def split: if_splits)
qed

section \<open>The end of a tick\<close>


lemma unat_queue_decrement: "unat (queue (decrement_queue st)) = unat (queue st) - 1"
proof (cases "queue st = 0")
  case True
  then show ?thesis by (simp add: decrement_queue_def)
next
  case False
  then have "0 < queue st" by (simp add: word_greater_zero_iff)
  then show ?thesis using False by (simp add: decrement_queue_def unat_minus_one)
qed

lemma unloaded_decrement: "num_trucks_unloaded (decrement_queue st) = num_trucks_unloaded st"
  by (simp add: decrement_queue_def)

lemma lvl_todo_done:
  assumes "timer_ok tr"
  shows "lvl_todo tr = Some (s, l) \<longleftrightarrow> 1 \<le> l \<and> lvl_done tr = Some (s, Suc l)"
  using assms word16_pos[of "timer tr"]
  by (cases "state tr") (auto simp add: timer_ok_def lvl_todo_def lvl_done_def)

lemma levels_tick:
  assumes lv: "levels_ok dn [] sts" and ok: "\<forall>tr \<in> set dn. timer_ok tr"
  shows "levels_ok [] dn (map decrement_queue sts)"
  unfolding levels_ok_def
proof (intro allI)
  fix s l
  have f: "filter (\<lambda>tr. lvl_todo tr = Some (s, l)) dn =
           filter (\<lambda>tr. 1 \<le> l \<and> lvl_done tr = Some (s, Suc l)) dn"
    using ok by (intro filter_cong) (simp_all add: lvl_todo_done)
  have c: "cnt dn [] s (Suc l) = (if s < length sts \<and> Suc l \<le> unat (queue (sts ! s)) then 1 else 0)"
    using lv by (simp add: levels_ok_def)
  show "cnt [] dn s l =
        (if s < length (map decrement_queue sts) \<and> 1 \<le> l \<and>
            l \<le> unat (queue (map decrement_queue sts ! s)) then 1 else 0)"
  proof (cases "1 \<le> l")
    case True
    then have "cnt [] dn s l = cnt dn [] s (Suc l)"
      by (simp add: cnt_def f)
    then show ?thesis
      using True c by (auto simp add: unat_queue_decrement)
  next
    case False
    then show ?thesis by (simp add: cnt_def f)
  qed
qed

lemma unloading_at_cnt:
  assumes ok: "\<forall>tr \<in> set dn. timer_ok tr"
  shows "unloading_at s dn = cnt dn [] s 1"
proof -
  have "filter (\<lambda>tr. state tr = Unloading \<and> station_idx tr = s) dn =
        filter (\<lambda>tr. lvl_done tr = Some (s, 1)) dn"
  proof (intro filter_cong refl)
    fix tr assume "tr \<in> set dn"
    then have "timer_ok tr" using ok by simp
    then show "(state tr = Unloading \<and> station_idx tr = s) = (lvl_done tr = Some (s, 1))"
      using word16_pos[of "timer tr"]
      by (cases "state tr") (auto simp add: timer_ok_def lvl_done_def)
  qed
  then show ?thesis by (simp add: unloading_at_def cnt_def)
qed

lemma unloaded_tick:
  assumes u: "unloaded_ok t [] sts" and lv: "levels_ok dn [] sts"
    and ok: "\<forall>tr \<in> set dn. timer_ok tr"
  shows "unloaded_ok (Suc t) dn (map decrement_queue sts)"
  unfolding unloaded_ok_def
proof (intro allI impI)
  fix s assume "s < length (map decrement_queue sts)"
  then have s: "s < length sts" by simp
  have "unloading_at s dn \<le> 1"
    using lv unfolding unloading_at_cnt[OF ok] levels_ok_def by simp
  moreover have "unat (num_trucks_unloaded (sts ! s)) \<le> Suc t"
    using u s by (simp add: unloaded_ok_def unloading_at_def)
  ultimately show "unat (num_trucks_unloaded (map decrement_queue sts ! s)) + unloading_at s dn
      \<le> Suc (Suc t)"
    using s by (simp add: unloaded_decrement)
qed

lemma unloaded_total_tick: "unloaded_total (map decrement_queue sts) = unloaded_total sts"
  by (simp add: unloaded_total_def o_def unloaded_decrement)

section \<open>Unloaded counts\<close>


lemma truck_run_not_unloading:
  assumes run: "truck_run tr sts idx g = Inr (tr', sts', idx', g')"
    and st: "state tr \<noteq> Unloading" and ls: "ledger_sum (total_time tr) < 65535"
  shows "map num_trucks_unloaded sts' = map num_trucks_unloaded sts \<and>
         unloading_time (total_time tr') = unloading_time (total_time tr)"
proof -
  note L = unloading_time_add[OF ls]
  have "map num_trucks_unloaded (sts[idx := (sts ! idx)\<lparr>queue := queue (sts ! idx) + 1\<rparr>]) =
        map num_trucks_unloaded sts"
  proof (rule nth_equalityI)
    fix i assume "i < length (map num_trucks_unloaded (sts[idx := (sts ! idx)\<lparr>queue := queue (sts ! idx) + 1\<rparr>]))"
    then have i: "i < length sts" by simp
    show "map num_trucks_unloaded (sts[idx := (sts ! idx)\<lparr>queue := queue (sts ! idx) + 1\<rparr>]) ! i =
          map num_trucks_unloaded sts ! i"
      using i by (cases "i = idx") simp_all
  qed simp
  then show ?thesis
    using run st
    by (cases "state tr")
      (auto simp add: truck_run_Mining truck_run_TravelStation truck_run_Waiting
        truck_run_TravelMining L split: if_splits)
qed

lemma truck_run_unloading:
  assumes run: "truck_run tr sts idx g = Inr (tr', sts', idx', g')"
    and st: "state tr = Unloading" and ls: "ledger_sum (total_time tr) < 65535"
  shows "station_idx tr < length sts \<and>
         sts' = sts[station_idx tr := (sts ! station_idx tr)
                 \<lparr>num_trucks_unloaded := num_trucks_unloaded (sts ! station_idx tr) + 1\<rparr>] \<and>
         unloading_time (total_time tr') = Suc (unloading_time (total_time tr))"
  using run st unloading_time_add[OF ls]
  by (auto simp add: truck_run_Unloading split: if_splits)

lemma unloading_at_Cons:
  "unloading_at s (tr # todo) =
     (if state tr = Unloading \<and> station_idx tr = s then 1 else 0) + unloading_at s todo"
  by (simp add: unloading_at_def)

lemma unloaded_step:
  assumes run: "truck_run tr sts idx g = Inr (tr', sts', idx', g')"
    and u: "unloaded_ok t (tr # todo) sts" and t: "t < 65535"
    and ls: "ledger_sum (total_time tr) < 65535"
  shows "unloaded_ok t todo sts'"
proof (cases "state tr = Unloading")
  case True
  note r = truck_run_unloading[OF run True ls]
  let ?i = "station_idx tr"
  have "unat (num_trucks_unloaded (sts ! ?i)) + 1 \<le> Suc t"
    using u r True by (auto simp add: unloaded_ok_def unloading_at_Cons)
  then have inc: "unat (num_trucks_unloaded (sts ! ?i) + 1) = Suc (unat (num_trucks_unloaded (sts ! ?i)))"
    using t by (intro word16_inc) simp
  show ?thesis
    unfolding unloaded_ok_def
  proof (intro allI impI)
    fix s assume "s < length sts'"
    then have s: "s < length sts" using r by simp
    have "unat (num_trucks_unloaded (sts ! s)) + unloading_at s (tr # todo) \<le> Suc t"
      using u s by (simp add: unloaded_ok_def)
    then show "unat (num_trucks_unloaded (sts' ! s)) + unloading_at s todo \<le> Suc t"
      using r s True inc by (cases "s = ?i") (simp_all add: unloading_at_Cons)
  qed
next
  case False
  note r = truck_run_not_unloading[OF run False ls]
  have len: "length sts' = length sts"
    using r by (metis length_map)
  show ?thesis
    unfolding unloaded_ok_def
  proof (intro allI impI)
    fix s assume "s < length sts'"
    then have s: "s < length sts" using len by simp
    have "num_trucks_unloaded (sts' ! s) = num_trucks_unloaded (sts ! s)"
      using r s len by (metis nth_map)
    moreover have "unat (num_trucks_unloaded (sts ! s)) + unloading_at s (tr # todo) \<le> Suc t"
      using u s by (simp add: unloaded_ok_def)
    ultimately show "unat (num_trucks_unloaded (sts' ! s)) + unloading_at s todo \<le> Suc t"
      using False by (simp add: unloading_at_Cons)
  qed
qed

lemma unloaded_total_update:
  assumes "i < length sts" "unat (num_trucks_unloaded (sts ! i)) < 65535"
  shows "unloaded_total (sts[i := (sts ! i)\<lparr>num_trucks_unloaded := num_trucks_unloaded (sts ! i) + 1\<rparr>])
         = Suc (unloaded_total sts)"
proof -
  let ?f = "\<lambda>s. unat (num_trucks_unloaded s)"
  have "sum_list ((map ?f sts)[i := Suc (?f (sts ! i))]) =
        sum_list (map ?f sts) + Suc (?f (sts ! i)) - map ?f sts ! i"
    using assms(1) by (intro sum_list_update) simp
  then show ?thesis
    using assms by (simp add: unloaded_total_def map_update word16_inc)
qed

lemma unloaded_total_step:
  assumes run: "truck_run tr sts idx g = Inr (tr', sts', idx', g')"
    and u: "unloaded_ok t (tr # todo) sts" and t: "t < 65535"
    and ls: "ledger_sum (total_time tr) < 65535"
    and eq: "unloaded_total sts = unloading_total (dn @ tr # todo)"
  shows "unloaded_total sts' = unloading_total ((dn @ [tr']) @ todo)"
proof (cases "state tr = Unloading")
  case True
  note r = truck_run_unloading[OF run True ls]
  let ?i = "station_idx tr"
  have "unat (num_trucks_unloaded (sts ! ?i)) + 1 \<le> Suc t"
    using u r True by (auto simp add: unloaded_ok_def unloading_at_Cons)
  then have "unat (num_trucks_unloaded (sts ! ?i)) < 65535" using t by simp
  then have "unloaded_total sts' = Suc (unloaded_total sts)"
    using r unloaded_total_update[of ?i sts] by simp
  then show ?thesis
    using r eq by (simp add: unloading_total_def)
next
  case False
  note r = truck_run_not_unloading[OF run False ls]
  have "map unat (map num_trucks_unloaded sts') = map unat (map num_trucks_unloaded sts)"
    using r by simp
  then have "unloaded_total sts' = unloaded_total sts"
    by (simp add: unloaded_total_def o_def)
  then show ?thesis
    using r eq by (simp add: unloading_total_def)
qed

section \<open>The round-robin shape of the queues\<close>


lemma shape_min:
  assumes "shape idx qs" "y \<in> set qs"
  shows "qs ! idx \<le> y"
proof -
  have idx: "idx < length qs" and srt: "sorted (drop idx qs @ take idx qs)"
    using assms(1) by (simp_all add: shape_def)
  have d: "drop idx qs = qs ! idx # drop (Suc idx) qs"
    using idx by (simp add: Cons_nth_drop_Suc)
  have "y \<in> set (drop idx qs @ take idx qs)"
    using assms(2) by (metis append_take_drop_id set_append Un_commute)
  then show ?thesis
    using srt unfolding d by auto
qed

lemma shape_arrive:
  assumes sh: "shape idx qs"
  shows "shape (Suc idx mod length qs) (qs[idx := Suc (qs ! idx)])"
proof -
  let ?qs' = "qs[idx := Suc (qs ! idx)]"
  let ?i' = "Suc idx mod length qs"
  have idx: "idx < length qs" and srt: "sorted (drop idx qs @ take idx qs)"
    and hi: "\<forall>y \<in> set qs. y \<le> qs ! idx + 1"
    using sh by (simp_all add: shape_def)
  have d: "drop idx qs = qs ! idx # drop (Suc idx) qs"
    using idx by (simp add: Cons_nth_drop_Suc)
  have srt': "sorted (drop (Suc idx) qs @ take idx qs)"
    using srt unfolding d by simp
  have le: "\<forall>y \<in> set (drop (Suc idx) qs @ take idx qs). y \<le> Suc (qs ! idx)"
    using hi by (auto dest: in_set_dropD in_set_takeD)
  have rot: "drop ?i' ?qs' @ take ?i' ?qs' = drop (Suc idx) qs @ take idx qs @ [Suc (qs ! idx)]"
  proof (cases "Suc idx < length qs")
    case True
    then have i': "?i' = Suc idx" by simp
    have "take (Suc idx) ?qs' = take idx qs @ [Suc (qs ! idx)]"
      using idx by (simp add: take_Suc_conv_app_nth)
    then show ?thesis
      unfolding i' by simp
  next
    case False
    then have e: "Suc idx = length qs" using idx by simp
    then have i': "?i' = 0" by simp
    have "?qs' = take (Suc idx) ?qs'" using e by simp
    also have "\<dots> = take idx qs @ [Suc (qs ! idx)]"
      using idx by (simp add: take_Suc_conv_app_nth)
    finally show ?thesis
      unfolding i' using e by simp
  qed
  have s1: "sorted (drop ?i' ?qs' @ take ?i' ?qs')"
    unfolding rot using srt' le by (simp add: sorted_append)
  have "0 < length qs" using idx by linarith
  then have i'lt: "?i' < length ?qs'" by simp
  have mem: "?qs' ! ?i' \<in> set ?qs'" using i'lt by (rule nth_mem)
  have ge: "qs ! idx \<le> ?qs' ! ?i'"
    using mem insert_subset[of _ _ "set qs"] set_update_subset_insert[of qs idx "Suc (qs ! idx)"]
      shape_min[OF sh] by (metis in_mono insertE le_SucI order_refl)
  have s2: "\<forall>y \<in> set ?qs'. y \<le> ?qs' ! ?i' + 1"
  proof
    fix y assume "y \<in> set ?qs'"
    then have "y = Suc (qs ! idx) \<or> y \<in> set qs"
      using set_update_subset_insert[of qs idx "Suc (qs ! idx)"] by auto
    then have "y \<le> Suc (qs ! idx)" using hi by auto
    then show "y \<le> ?qs' ! ?i' + 1" using ge by simp
  qed
  show ?thesis
    unfolding shape_def using i'lt s1 s2 by simp
qed

lemma sorted_pred: "sorted xs \<Longrightarrow> sorted (map (\<lambda>q. q - 1) (xs :: nat list))"
  by (induction xs) (auto simp add: diff_le_mono)

lemma shape_tick:
  assumes sh: "shape idx qs"
  shows "shape idx (map (\<lambda>q. q - 1) qs)"
proof -
  have idx: "idx < length qs" and srt: "sorted (drop idx qs @ take idx qs)"
    and hi: "\<forall>y \<in> set qs. y \<le> qs ! idx + 1"
    using sh by (simp_all add: shape_def)
  have "drop idx (map (\<lambda>q. q - 1) qs) @ take idx (map (\<lambda>q. q - 1) qs) =
        map (\<lambda>q. q - 1) (drop idx qs @ take idx qs)"
    by (simp add: drop_map take_map)
  moreover have "sorted (map (\<lambda>q. q - 1) (drop idx qs @ take idx qs))"
    using srt by (rule sorted_pred)
  ultimately have s1: "sorted (drop idx (map (\<lambda>q. q - 1) qs) @ take idx (map (\<lambda>q. q - 1) qs))"
    by simp
  have s2: "\<forall>y \<in> set (map (\<lambda>q. q - 1) qs). y \<le> map (\<lambda>q. q - 1) qs ! idx + 1"
    using hi idx by auto
  show ?thesis
    unfolding shape_def using idx s1 s2 by simp
qed


lemma queues_decrement: "queues (map decrement_queue sts) = map (\<lambda>q. q - 1) (queues sts)"
  by (simp add: queues_def unat_queue_decrement)

lemma queues_arrive:
  assumes "unat (queue (sts ! idx)) < 65535" "idx < length sts"
  shows "queues (sts[idx := (sts ! idx)\<lparr>queue := queue (sts ! idx) + 1\<rparr>]) =
         (queues sts)[idx := Suc (queues sts ! idx)]"
  using assms by (simp add: queues_def map_update word16_inc)

lemma queues_cong: "map queue sts' = map queue sts \<Longrightarrow> queues sts' = queues sts"
proof -
  assume "map queue sts' = map queue sts"
  then have "map unat (map queue sts') = map unat (map queue sts)" by simp
  then show ?thesis by (simp add: queues_def o_def)
qed

lemma truck_run_no_arrival:
  assumes run: "truck_run tr sts idx g = Inr (tr', sts', idx', g')"
    and na: "\<not> (state tr = TravelStation \<and> timer tr = 1)"
  shows "idx' = idx \<and> map queue sts' = map queue sts"
proof -
  have "map queue (sts[station_idx tr := (sts ! station_idx tr)
          \<lparr>num_trucks_unloaded := num_trucks_unloaded (sts ! station_idx tr) + 1\<rparr>]) = map queue sts"
  proof (rule nth_equalityI)
    fix i
    assume "i < length (map queue (sts[station_idx tr := (sts ! station_idx tr)
          \<lparr>num_trucks_unloaded := num_trucks_unloaded (sts ! station_idx tr) + 1\<rparr>]))"
    then have i: "i < length sts" by simp
    show "map queue (sts[station_idx tr := (sts ! station_idx tr)
          \<lparr>num_trucks_unloaded := num_trucks_unloaded (sts ! station_idx tr) + 1\<rparr>]) ! i =
          map queue sts ! i"
      using i by (cases "i = station_idx tr") simp_all
  qed simp
  then show ?thesis
    using run na
    by (cases "state tr")
      (auto simp add: truck_run_Mining truck_run_TravelStation truck_run_Waiting
        truck_run_Unloading truck_run_TravelMining split: if_splits)
qed

lemma truck_run_arrival:
  assumes run: "truck_run tr sts idx g = Inr (tr', sts', idx', g')"
    and a: "state tr = TravelStation" "timer tr = 1"
  shows "idx < length sts \<and> idx' = Suc idx mod length sts \<and>
         sts' = sts[idx := (sts ! idx)\<lparr>queue := queue (sts ! idx) + 1\<rparr>] \<and>
         tr' = tr\<lparr>timer := queue (sts ! idx), total_time := total_time tr + TRAVELING_INC,
                  station_idx := idx,
                  state := (if queue (sts ! idx) \<noteq> 0 then Waiting else Unloading)\<rparr>"
  using run a by (simp add: truck_run_TravelStation split: if_splits)

lemma shape_step:
  assumes run: "truck_run tr sts idx g = Inr (tr', sts', idx', g')"
    and sh: "shape idx (queues sts)"
    and lv: "levels_ok dn (tr # todo) sts"
    and n: "length dn + length todo < 65535"
  shows "shape idx' (queues sts')"
proof (cases "state tr = TravelStation \<and> timer tr = 1")
  case True
  note r = truck_run_arrival[OF run True[THEN conjunct1] True[THEN conjunct2]]
  have "lvl_todo tr = None" using True by (simp add: lvl_todo_def)
  then have lv': "levels_ok dn todo sts"
    using lv unfolding levels_ok_def cnt_Cons by simp
  have "unat (queue (sts ! idx)) \<le> length dn + length todo"
    using levels_queue_bound[OF lv'] r by simp
  then have q: "unat (queue (sts ! idx)) < 65535" using n by simp
  have "shape (Suc idx mod length (queues sts)) ((queues sts)[idx := Suc (queues sts ! idx)])"
    using sh by (rule shape_arrive)
  then show ?thesis
    using r queues_arrive[OF q] by (simp add: queues_def)
next
  case False
  note r = truck_run_no_arrival[OF run False]
  show ?thesis using sh r queues_cong[of sts' sts] by simp
qed

lemma fold_min_props:
  "fold (\<lambda>x smallest. if get_queue x < get_queue smallest then x else smallest) ss s0 \<in> set (s0 # ss) \<and>
   (\<forall>x \<in> set (s0 # ss).
      queue (fold (\<lambda>x smallest. if get_queue x < get_queue smallest then x else smallest) ss s0)
        \<le> queue x)"
proof (induction ss arbitrary: s0)
  case Nil
  then show ?case by simp
next
  case (Cons a ss)
  let ?f = "\<lambda>x smallest. if get_queue x < get_queue smallest then x else smallest"
  show ?case
  proof (cases "get_queue a < get_queue s0")
    case True
    then show ?thesis
      using Cons.IH[of a] by (auto simp add: get_queue_def)
  next
    case False
    then show ?thesis
      using Cons.IH[of s0] by (auto simp add: get_queue_def)
  qed
qed

lemma min_element_props:
  assumes "min_element sts = Some m"
  shows "m \<in> set sts \<and> (\<forall>x \<in> set sts. queue m \<le> queue x)"
proof (cases sts)
  case Nil
  then show ?thesis using assms by simp
next
  case (Cons s ss)
  then show ?thesis using assms fold_min_props[of ss s] by auto
qed

lemma check_passes:
  assumes sh: "shape idx (queues sts)"
  shows "compare_idx_val_to_actual_min sts idx = Inr ()"
proof -
  have idx: "idx < length sts" using sh by (simp add: shape_def queues_def)
  then obtain m where m: "min_element sts = Some m"
    by (cases sts) auto
  note p = min_element_props[OF m]
  have "queue m \<le> queue (sts ! idx)" using p idx by simp
  moreover have "unat (queue (sts ! idx)) \<le> unat (queue m)"
    using shape_min[OF sh, of "unat (queue m)"] p idx by (simp add: queues_def)
  ultimately have "queue m = queue (sts ! idx)"
    by (simp add: word_le_nat_alt word_unat_eq_iff)
  then show ?thesis
    using idx by (simp add: compare_idx_val_to_actual_min_def m get_queue_def)
qed

section \<open>The invariant is kept\<close>


lemma sim_inv_truck:
  assumes inv: "sim_inv t dn (tr # todo) sts idx g" and t: "t < MAX_TIME"
  shows "\<exists>tr' sts' idx' g'. truck_run tr sts idx g = Inr (tr', sts', idx', g') \<and>
           sim_inv t (dn @ [tr']) todo sts' idx' g'"
proof -
  have g: "rmt_range g" and n: "length dn + length todo < 65535"
    and dn: "\<forall>x \<in> set dn. truck_inv (length sts) (Suc t) x"
    and td: "\<forall>x \<in> set todo. truck_inv (length sts) t x"
    and ti: "truck_inv (length sts) t tr"
    and lv: "levels_ok dn (tr # todo) sts" and sh: "shape idx (queues sts)"
    and u: "unloaded_ok t (tr # todo) sts"
    and tot: "unloaded_total sts = unloading_total (dn @ tr # todo)"
    using inv by (simp_all add: sim_inv_def)
  have t': "t < 65535" using t by (simp add: MAX_TIME_def)
  have idx: "idx < length sts" using sh by (simp add: shape_def queues_def)
  have ls: "ledger_sum (total_time tr) < 65535" using ti t' by (simp add: truck_inv_def)
  have tok: "timer_ok tr" and si: "station_idx tr < length sts"
    using ti by (simp_all add: truck_inv_def)
  obtain tr' sts' idx' g' where run: "truck_run tr sts idx g = Inr (tr', sts', idx', g')"
    using truck_run_total[OF si idx] by blast
  note fr = truck_run_frame[OF run idx]
  have 1: "rmt_range g'" using truck_run_gen[OF run g] .
  have 2: "truck_inv (length sts') (Suc t) tr'"
    using truck_run_inv[OF run ti t' g] fr by simp
  have 3: "levels_ok (dn @ [tr']) todo sts'"
    using levels_step[OF run lv tok n] .
  have 4: "shape idx' (queues sts')"
    using shape_step[OF run sh lv n] .
  have 5: "unloaded_ok t todo sts'"
    using unloaded_step[OF run u t' ls] .
  have 6: "unloaded_total sts' = unloading_total ((dn @ [tr']) @ todo)"
    using unloaded_total_step[OF run u t' ls tot] .
  have "sim_inv t (dn @ [tr']) todo sts' idx' g'"
    unfolding sim_inv_def using 1 2 3 4 5 6 t n dn td fr by simp
  then show ?thesis using run by blast
qed

lemma truck_inv_timer_ok: "truck_inv M t tr \<Longrightarrow> timer_ok tr"
  by (simp add: truck_inv_def)

lemma sim_inv_tick:
  assumes inv: "sim_inv t dn [] sts idx g" and t: "t < MAX_TIME"
  shows "sim_inv (Suc t) [] dn (map decrement_queue sts) idx g"
proof -
  have g: "rmt_range g" and n: "length dn < 65536"
    and dn: "\<forall>x \<in> set dn. truck_inv (length sts) (Suc t) x"
    and lv: "levels_ok dn [] sts" and sh: "shape idx (queues sts)"
    and u: "unloaded_ok t [] sts"
    and tot: "unloaded_total sts = unloading_total dn"
    using inv by (simp_all add: sim_inv_def)
  have ok: "\<forall>x \<in> set dn. timer_ok x" using dn truck_inv_timer_ok by blast
  have 3: "levels_ok [] dn (map decrement_queue sts)"
    using levels_tick[OF lv ok] .
  have 4: "shape idx (queues (map decrement_queue sts))"
    unfolding queues_decrement using sh by (rule shape_tick)
  have 5: "unloaded_ok (Suc t) dn (map decrement_queue sts)"
    using unloaded_tick[OF u lv ok] .
  show ?thesis
    unfolding sim_inv_def using g t n dn 3 4 5 tot by (simp add: unloaded_total_tick)
qed

lemma ledger_sum_zero: "ledger_sum 0 = 0" "unloading_time 0 = 0"
  by (simp_all add: ledger_sum_def waiting_time_nat unloading_time_nat traveling_time_nat
      mining_time_nat)

lemma Truck_ctor_inv:
  assumes "rmt_range g" "Truck_ctor g = (tr, g')" "0 < M"
  shows "rmt_range g' \<and> truck_inv M 0 tr \<and> state tr = Mining \<and> total_time tr = 0"
proof -
  note d = rmt_range_rmt[OF assms(1)]
  have tr: "tr = \<lparr>state = Mining, timer = of_nat (fst (rmt g)), total_time = 0, station_idx = 0\<rparr>"
    and g': "g' = snd (rmt g)"
    using assms(2) by (auto simp add: Truck_ctor_def split: prod.splits)
  have u: "unat (of_nat (fst (rmt g)) :: 16 word) = fst (rmt g)"
    and z: "(of_nat (fst (rmt g)) :: 16 word) \<noteq> 0"
    using d unat_draw by blast+
  show ?thesis
    using d assms(3) unfolding tr g' truck_inv_def timer_ok_def cycle_ok_def
    by (simp add: ledger_sum_zero u z ONE_HOUR_def)
qed

lemma make_trucks_inv:
  assumes "rmt_range g" "make_trucks k g = (trs, g')" "0 < M"
  shows "rmt_range g' \<and> length trs = k \<and>
         (\<forall>tr \<in> set trs. truck_inv M 0 tr \<and> state tr = Mining \<and> total_time tr = 0)"
  using assms
proof (induction k arbitrary: g trs g')
  case 0
  then show ?case by simp
next
  case (Suc k)
  obtain tr g1 where c: "Truck_ctor g = (tr, g1)" by (cases "Truck_ctor g")
  obtain trs1 g2 where m: "make_trucks k g1 = (trs1, g2)" by (cases "make_trucks k g1")
  have e: "trs = tr # trs1" "g' = g2"
    using Suc.prems(2) by (simp_all add: c m)
  note a = Truck_ctor_inv[OF Suc.prems(1) c Suc.prems(3)]
  note b = Suc.IH[OF a[THEN conjunct1] m Suc.prems(3)]
  show ?case using a b e by simp
qed

section \<open>Construction and the two loops\<close>

lemma cnt_all_mining:
  assumes "\<forall>tr \<in> set trs. state tr = Mining"
  shows "cnt [] trs s l = 0" "unloading_at s trs = 0"
proof -
  have "filter (\<lambda>tr. lvl_todo tr = Some (s, l)) trs = []"
    using assms by (auto simp add: filter_empty_conv lvl_todo_def)
  then show "cnt [] trs s l = 0" by (simp add: cnt_def)
  have "filter (\<lambda>tr. state tr = Unloading \<and> station_idx tr = s) trs = []"
    using assms by (auto simp add: filter_empty_conv)
  then show "unloading_at s trs = 0" by (simp add: unloading_at_def)
qed

lemma unloading_total_zero:
  assumes "\<forall>tr \<in> set trs. total_time tr = 0"
  shows "unloading_total trs = 0"
  using assms by (induction trs) (simp_all add: unloading_total_def ledger_sum_zero)

lemma Simulation_ctor_inv:
  assumes g: "rmt_range g" and m: "num_stations \<noteq> 0"
    and c: "Simulation_ctor num_trucks num_stations dbg g = (sim, g')"
  shows "sim_inv 0 [] (trucks sim) (stations sim) (curr_station_idx sim) g'"
    and "unat (sim_total_time sim) = MAX_TIME" and "debug sim = dbg"
    and "length (trucks sim) = unat num_trucks" and "length (stations sim) = unat num_stations"
proof -
  let ?M = "unat num_stations"
  have M: "0 < ?M" using m by (simp add: unat_gt_0)
  obtain trs where mk: "make_trucks (unat num_trucks) g = (trs, g')"
    and sim: "sim = \<lparr>curr_station_idx = 0, sim_total_time = of_nat MAX_TIME, debug = dbg,
           stations = replicate ?M Station_ctor, trucks = trs\<rparr>"
    using c by (auto simp add: Simulation_ctor_def split: prod.splits)
  note k = make_trucks_inv[OF g mk M]
  show "unat (sim_total_time sim) = MAX_TIME"
    by (simp add: sim MAX_TIME_def)
  show "debug sim = dbg" by (simp add: sim)
  show len: "length (trucks sim) = unat num_trucks" using k by (simp add: sim)
  show "length (stations sim) = ?M" by (simp add: sim)
  have n: "length trs < 65536"
    using k unsigned_less[of num_trucks, where 'a=nat] by simp
  have mining: "\<forall>tr \<in> set trs. state tr = Mining" using k by blast
  have lv: "levels_ok [] trs (replicate ?M Station_ctor)"
    unfolding levels_ok_def by (simp add: cnt_all_mining[OF mining] Station_ctor_def)
  have q: "queues (replicate ?M Station_ctor) = replicate ?M 0"
    by (simp add: queues_def Station_ctor_def)
  have sh: "shape 0 (queues (replicate ?M Station_ctor))"
    unfolding q shape_def using M by (simp add: sorted_replicate)
  have u: "unloaded_ok 0 trs (replicate ?M Station_ctor)"
    unfolding unloaded_ok_def by (simp add: cnt_all_mining[OF mining] Station_ctor_def)
  have tot: "unloaded_total (replicate ?M Station_ctor) = unloading_total trs"
    using k by (simp add: unloading_total_zero unloaded_total_def Station_ctor_def sum_list_replicate)
  show "sim_inv 0 [] (trucks sim) (stations sim) (curr_station_idx sim) g'"
    unfolding sim_inv_def using k n lv sh u tot by (simp add: sim)
qed

lemma run_trucks_inv:
  assumes "sim_inv t dn todo sts idx g" "t < MAX_TIME"
  shows "\<exists>trs' sts' idx' g'. run_trucks dbg todo sts idx g = Inr (trs', sts', idx', g') \<and>
           sim_inv t (dn @ trs') [] sts' idx' g'"
  using assms
proof (induction todo arbitrary: dn sts idx g)
  case Nil
  then show ?case by simp
next
  case (Cons tr todo)
  obtain tr' sts1 idx1 g1 where run: "truck_run tr sts idx g = Inr (tr', sts1, idx1, g1)"
    and inv1: "sim_inv t (dn @ [tr']) todo sts1 idx1 g1"
    using sim_inv_truck[OF Cons.prems] by blast
  have chk: "compare_idx_val_to_actual_min sts1 idx1 = Inr ()"
    using inv1 by (intro check_passes) (simp add: sim_inv_def)
  obtain trs' sts' idx' g' where
    rest: "run_trucks dbg todo sts1 idx1 g1 = Inr (trs', sts', idx', g')"
    and inv': "sim_inv t ((dn @ [tr']) @ trs') [] sts' idx' g'"
    using Cons.IH[OF inv1 Cons.prems(2)] by blast
  have "run_trucks dbg (tr # todo) sts idx g = Inr (tr' # trs', sts', idx', g')"
    using run chk rest by (cases dbg) simp_all
  then show ?case using inv' by simp
qed

lemma sim_loop_inv:
  assumes "sim_inv t [] (trucks sim) (stations sim) (curr_station_idx sim) g" "t + k \<le> MAX_TIME"
  shows "\<exists>sim' g'. sim_loop k sim g = Inr (sim', g') \<and>
           sim_inv (t + k) [] (trucks sim') (stations sim') (curr_station_idx sim') g' \<and>
           debug sim' = debug sim \<and> sim_total_time sim' = sim_total_time sim"
  using assms
proof (induction k arbitrary: t sim g)
  case 0
  then show ?case by simp
next
  case (Suc k)
  have t: "t < MAX_TIME" using Suc.prems(2) by simp
  obtain trs sts idx g1 where
    run: "run_trucks (debug sim) (trucks sim) (stations sim) (curr_station_idx sim) g =
            Inr (trs, sts, idx, g1)"
    and inv1: "sim_inv t ([] @ trs) [] sts idx g1"
    using run_trucks_inv[OF Suc.prems(1) t] by blast
  let ?sim1 = "sim\<lparr>trucks := trs, stations := map decrement_queue sts, curr_station_idx := idx\<rparr>"
  have inv2: "sim_inv (Suc t) [] (trucks ?sim1) (stations ?sim1) (curr_station_idx ?sim1) g1"
    using sim_inv_tick[OF _ t, of trs sts idx g1] inv1 by simp
  have "Suc t + k \<le> MAX_TIME" using Suc.prems(2) by simp
  from Suc.IH[OF inv2 this] obtain sim' g' where
    "sim_loop k ?sim1 g1 = Inr (sim', g')"
    "sim_inv (Suc t + k) [] (trucks sim') (stations sim') (curr_station_idx sim') g'"
    "debug sim' = debug ?sim1" "sim_total_time sim' = sim_total_time ?sim1"
    by blast
  then show ?case by (simp add: run)
qed

lemma reach_inv:
  assumes r: "reach sim0 g0 t dn todo sts idx g"
    and i: "sim_inv 0 [] (trucks sim0) (stations sim0) (curr_station_idx sim0) g0"
    and h: "unat (sim_total_time sim0) = MAX_TIME"
  shows "sim_inv t dn todo sts idx g"
  using r
proof (induction rule: reach.induct)
  case start
  then show ?case using i .
next
  case (truck t dn tr todo sts idx g tr' sts' idx' g')
  then show ?case using sim_inv_truck[of t dn tr todo sts idx g] h by auto
next
  case (tick t dn sts idx g)
  then show ?case using sim_inv_tick[of t dn sts idx g] h by simp
qed

lemma compare_total_time_ok:
  assumes "ledger_sum (total_time tr) = MAX_TIME"
  shows "compare_total_time_to_max_time tr MAX_TIME = Inr ()"
proof -
  let ?tt = "total_time tr"
  let ?a = "RETRIEVE_TIME ?tt WAITING_MASK 0" and ?b = "RETRIEVE_TIME ?tt UNLOADING_MASK 16"
  let ?c = "RETRIEVE_TIME ?tt TRAVELING_MASK 32" and ?d = "RETRIEVE_TIME ?tt MINING_MASK 48"
  have "?a + ?b + ?c + ?d = of_nat (unat ?a + unat ?b + unat ?c + unat ?d)"
    by simp
  also have "\<dots> = of_nat MAX_TIME"
    using assms by (simp only: ledger_sum_def waiting_time_def unloading_time_def
        traveling_time_def mining_time_def)
  finally show ?thesis
    by (simp add: compare_total_time_to_max_time_def Let_def)
qed

lemma log_trucks_ok:
  assumes "\<forall>tr \<in> set trs. ledger_sum (total_time tr) = MAX_TIME"
  shows "log_trucks dbg trs = Inr ()"
  using assms by (cases dbg; induction trs) (simp_all add: compare_total_time_ok)

lemma run_sim_inv:
  assumes i: "sim_inv 0 [] (trucks sim) (stations sim) (curr_station_idx sim) g"
    and h: "unat (sim_total_time sim) = MAX_TIME"
  shows "\<exists>sim' g'. run_sim sim g = Inr (sim', g') \<and>
           sim_loop MAX_TIME sim g = Inr (sim', g') \<and>
           sim_inv MAX_TIME [] (trucks sim') (stations sim') (curr_station_idx sim') g'"
proof -
  obtain sim' g' where l: "sim_loop MAX_TIME sim g = Inr (sim', g')"
    and inv: "sim_inv (0 + MAX_TIME) [] (trucks sim') (stations sim') (curr_station_idx sim') g'"
    using sim_loop_inv[OF i, of MAX_TIME] by auto
  have "\<forall>tr \<in> set (trucks sim'). ledger_sum (total_time tr) = MAX_TIME"
    using inv by (simp add: sim_inv_def truck_inv_def)
  then have "log_trucks (debug sim') (trucks sim') = Inr ()"
    by (rule log_trucks_ok)
  then have "run_sim sim g = Inr (sim', g')"
    by (simp add: run_sim_def h l)
  then show ?thesis using l inv by simp
qed

lemma mining_sim_inv:
  assumes g: "rmt_range g" and m: "num_stations \<noteq> 0"
  shows "\<exists>sim' g'. mining_sim num_trucks num_stations dbg g = Inr (sim', g') \<and>
           sim_inv MAX_TIME [] (trucks sim') (stations sim') (curr_station_idx sim') g'"
proof -
  obtain sim g1 where c: "Simulation_ctor num_trucks num_stations dbg g = (sim, g1)"
    by (cases "Simulation_ctor num_trucks num_stations dbg g")
  note k = Simulation_ctor_inv[OF g m c]
  show ?thesis
    using run_sim_inv[OF k(1) k(2)] by (auto simp add: mining_sim_def c)
qed

lemma run_trucks_length:
  "run_trucks dbg todo sts idx g = Inr (trs', sts', idx', g') \<Longrightarrow> length trs' = length todo"
  by (induction todo arbitrary: sts idx g trs') (auto split: sum.splits if_splits)

lemma sim_loop_length:
  "sim_loop k sim g = Inr (sim', g') \<Longrightarrow> length (trucks sim') = length (trucks sim)"
proof (induction k arbitrary: sim g)
  case 0
  then show ?case by simp
next
  case (Suc k)
  then show ?case
    by (auto split: sum.splits dest!: run_trucks_length)
qed

lemma truck_run_ledger:
  assumes run: "truck_run tr sts idx g = Inr (tr', sts', idx', g')"
    and ls: "ledger_sum (total_time tr) < 65535"
  shows "waiting_time (total_time tr') =
           waiting_time (total_time tr) + (if state tr = Waiting then 1 else 0) \<and>
         unloading_time (total_time tr') =
           unloading_time (total_time tr) + (if state tr = Unloading then 1 else 0) \<and>
         traveling_time (total_time tr') =
           traveling_time (total_time tr) +
             (if state tr = TravelStation \<or> state tr = TravelMining then 1 else 0) \<and>
         mining_time (total_time tr') =
           mining_time (total_time tr) + (if state tr = Mining then 1 else 0)"
proof -
  have lt: "waiting_time (total_time tr) < 65535" "unloading_time (total_time tr) < 65535"
    "traveling_time (total_time tr) < 65535" "mining_time (total_time tr) < 65535"
    using ls by (simp_all add: ledger_sum_def)
  note A = ledger_add[OF unat_incs(1), of "total_time tr"] ledger_add[OF unat_incs(2), of "total_time tr"]
    ledger_add[OF unat_incs(3), of "total_time tr"] ledger_add[OF unat_incs(4), of "total_time tr"]
  show ?thesis
  proof (cases "state tr")
    case Mining
    then have "total_time tr' = total_time tr + MINING_INC"
      using run by (auto simp add: truck_run_Mining split: if_splits)
    then show ?thesis using Mining A(4) lt by simp
  next
    case TravelStation
    then have "total_time tr' = total_time tr + TRAVELING_INC"
      using run by (auto simp add: truck_run_TravelStation split: if_splits)
    then show ?thesis using TravelStation A(3) lt by simp
  next
    case Waiting
    then have "total_time tr' = total_time tr + WAITING_INC"
      using run by (auto simp add: truck_run_Waiting split: if_splits)
    then show ?thesis using Waiting A(1) lt by simp
  next
    case Unloading
    then have "total_time tr' = total_time tr + UNLOADING_INC"
      using run by (auto simp add: truck_run_Unloading split: if_splits)
    then show ?thesis using Unloading A(2) lt by simp
  next
    case TravelMining
    then have "total_time tr' = total_time tr + TRAVELING_INC"
      using run by (auto simp add: truck_run_TravelMining split: if_splits)
    then show ?thesis using TravelMining A(3) lt by simp
  qed
qed

lemma waiting_runs:
  assumes "state tr = Waiting" "timer tr \<noteq> 0" "k \<le> unat (timer tr)"
  shows "truck_runs k tr sts idx g =
           Inr (tr\<lparr>timer := timer tr - of_nat k,
                   total_time := total_time tr + of_nat k * WAITING_INC,
                   state := (if k < unat (timer tr) then Waiting else Unloading)\<rparr>, sts, idx, g)"
  using assms
proof (induction k arbitrary: tr)
  case 0
  then show ?case using word16_pos[of "timer tr"] by simp
next
  case (Suc k)
  note nz = Suc.prems(2)
  show ?case
  proof (cases "timer tr = 1")
    case True
    then have "k = 0" using Suc.prems(3) by simp
    then show ?thesis
      using True Suc.prems(1) by (simp add: truck_run_Waiting)
  next
    case False
    let ?tr1 = "tr\<lparr>timer := timer tr - 1, total_time := total_time tr + WAITING_INC\<rparr>"
    have s: "truck_run tr sts idx g = Inr (?tr1, sts, idx, g)"
      using False Suc.prems(1) by (simp add: truck_run_Waiting)
    have 1: "state ?tr1 = Waiting" using Suc.prems(1) by simp
    have 2: "timer ?tr1 \<noteq> 0" using False by simp
    note u = word16_dec[OF nz]
    have 3: "k \<le> unat (timer ?tr1)" using Suc.prems(3) u by simp
    have c: "(k < unat (timer tr) - 1) = (Suc k < unat (timer tr))" by auto
    show ?thesis
      using Suc.IH[OF 1 2 3] by (simp add: s u c algebra_simps)
  qed
qed

lemma waiting_time_high:
  "waiting_time (tt + TRAVELING_INC) = waiting_time tt"
  "waiting_time (tt + UNLOADING_INC) = waiting_time tt"
proof -
  have m: "(x mod 18446744073709551616) mod 65536 = x mod (65536 :: nat)" for x :: nat
    by (rule mod_mod_cancel) simp
  show "waiting_time (tt + TRAVELING_INC) = waiting_time tt"
    unfolding waiting_time_nat unat_add_inc m
    using mod_mult_self2[of "unat tt" 65536 65536] by (simp add: TRAVELING_INC_def)
  show "waiting_time (tt + UNLOADING_INC) = waiting_time tt"
    unfolding waiting_time_nat unat_add_inc m
    using mod_mult_self2[of "unat tt" 65536 1] by (simp add: UNLOADING_INC_def)
qed

lemma waiting_time_many:
  assumes "waiting_time tt + k < 65536"
  shows "waiting_time (tt + of_nat k * WAITING_INC) = waiting_time tt + k"
proof -
  have k: "k < 65536" using assms by simp
  then have "unat (of_nat k * WAITING_INC :: 64 word) = pack k 0 0 0"
    by (simp add: WAITING_INC_def pack_def unat_of_nat)
  from ledger_add[OF this, of tt] show ?thesis
    using assms fields_lt[of tt] by simp
qed

lemma sum_list_bound:
  "(\<forall>x \<in> set xs. f x \<le> (c::nat)) \<Longrightarrow> sum_list (map f xs) \<le> length xs * c"
  by (induction xs) auto

lemma cycle_bound:
  assumes "truck_inv M t tr"
  shows "25 * unloading_time (total_time tr) \<le> t + 6"
  using assms unfolding truck_inv_def timer_ok_def cycle_ok_def
  by (cases "state tr") (auto simp add: Let_def TRAVEL_TIME_def)

lemma mining_sim_final:
  assumes g: "rmt_range g" and m: "num_stations \<noteq> 0"
  shows "\<exists>sim' g'. mining_sim num_trucks num_stations dbg g = Inr (sim', g') \<and>
           sim_inv MAX_TIME [] (trucks sim') (stations sim') (curr_station_idx sim') g' \<and>
           length (trucks sim') = unat num_trucks"
proof -
  obtain sim g1 where c: "Simulation_ctor num_trucks num_stations dbg g = (sim, g1)"
    by (cases "Simulation_ctor num_trucks num_stations dbg g")
  note k = Simulation_ctor_inv[OF g m c]
  obtain sim' g' where r: "run_sim sim g1 = Inr (sim', g')"
    and l: "sim_loop MAX_TIME sim g1 = Inr (sim', g')"
    and i: "sim_inv MAX_TIME [] (trucks sim') (stations sim') (curr_station_idx sim') g'"
    using run_sim_inv[OF k(1) k(2)] by blast
  have "length (trucks sim') = unat num_trucks"
    using sim_loop_length[OF l] k(4) by simp
  then show ?thesis
    using r i by (simp add: mining_sim_def c)
qed

lemma run_trucks_fold:
  assumes "run_trucks dbg todo sts idx g = Inr (trs', sts', idx', g')"
  shows "fold (\<lambda>i c. spec_truck_step c i) [length dn..<length dn + length todo]
           (dn @ todo, sts, idx, g) = (dn @ trs', sts', idx', g')"
  using assms
proof (induction todo arbitrary: dn sts idx g trs')
  case Nil
  then show ?case by simp
next
  case (Cons tr todo)
  from Cons.prems obtain tr' sts1 idx1 g1 trs1 where
    run: "truck_run tr sts idx g = Inr (tr', sts1, idx1, g1)"
    and rest: "run_trucks dbg todo sts1 idx1 g1 = Inr (trs1, sts', idx', g')"
    and e: "trs' = tr' # trs1"
    by (auto split: sum.splits if_splits)
  have "[length dn..<length dn + length (tr # todo)] =
        length dn # [Suc (length dn)..<length dn + length (tr # todo)]"
    by (rule upt_conv_Cons) simp
  moreover have "Suc (length dn) = length (dn @ [tr'])"
    "length dn + length (tr # todo) = length (dn @ [tr']) + length todo"
    by simp_all
  ultimately have u: "[length dn..<length dn + length (tr # todo)] =
           length dn # [length (dn @ [tr'])..<length (dn @ [tr']) + length todo]"
    by (simp only:)
  have s: "spec_truck_step (dn @ tr # todo, sts, idx, g) (length dn) =
           ((dn @ [tr']) @ todo, sts1, idx1, g1)"
    by (simp add: spec_truck_step_def run)
  show ?case
    unfolding u using Cons.IH[OF rest, of "dn @ [tr']"] by (simp add: s e)
qed

lemma sim_loop_spec:
  assumes "sim_loop k sim g = Inr (sim', g')"
  shows "(trucks sim', stations sim', curr_station_idx sim', g') =
         (spec_tick ^^ k) (trucks sim, stations sim, curr_station_idx sim, g)"
  using assms
proof (induction k arbitrary: sim g)
  case 0
  then show ?case by simp
next
  case (Suc k)
  from Suc.prems obtain trs sts idx g1 where
    run: "run_trucks (debug sim) (trucks sim) (stations sim) (curr_station_idx sim) g =
            Inr (trs, sts, idx, g1)"
    and rest: "sim_loop k (sim\<lparr>trucks := trs, stations := map decrement_queue sts,
                 curr_station_idx := idx\<rparr>) g1 = Inr (sim', g')"
    by (auto split: sum.splits)
  have "spec_tick (trucks sim, stations sim, curr_station_idx sim, g) =
        (trs, map decrement_queue sts, idx, g1)"
    using run_trucks_fold[OF run, of "[]"] by (simp add: spec_tick_def)
  then show ?case
    using Suc.IH[OF rest] by (simp add: funpow_swap1)
qed

section \<open>The loops stay within the reachable configurations\<close>

text \<open>The configurations that the two loops of \<open>run_sim\<close> pass through are reachable.\<close>

lemma run_trucks_reach:
  assumes "run_trucks dbg todo sts idx g = Inr (trs', sts', idx', g')"
    and "reach sim0 g0 t dn todo sts idx g" and "t < unat (sim_total_time sim0)"
  shows "reach sim0 g0 t (dn @ trs') [] sts' idx' g'"
  using assms
proof (induction todo arbitrary: dn sts idx g trs')
  case Nil
  then show ?case by simp
next
  case (Cons tr todo)
  from Cons.prems(1) obtain tr' sts1 idx1 g1 trs1 where
    run: "truck_run tr sts idx g = Inr (tr', sts1, idx1, g1)"
    and rest: "run_trucks dbg todo sts1 idx1 g1 = Inr (trs1, sts', idx', g')"
    and e: "trs' = tr' # trs1"
    by (auto split: sum.splits if_splits)
  have "reach sim0 g0 t (dn @ [tr']) todo sts1 idx1 g1"
    using reach.truck[OF Cons.prems(2) Cons.prems(3) run] .
  from Cons.IH[OF rest this Cons.prems(3)] show ?case by (simp add: e)
qed

lemma sim_loop_reach:
  assumes "sim_loop k sim g = Inr (sim', g')"
    and "reach sim0 g0 t [] (trucks sim) (stations sim) (curr_station_idx sim) g"
    and "t + k \<le> unat (sim_total_time sim0)"
  shows "reach sim0 g0 (t + k) [] (trucks sim') (stations sim') (curr_station_idx sim') g'"
  using assms
proof (induction k arbitrary: sim g t)
  case 0
  then show ?case by simp
next
  case (Suc k)
  have t: "t < unat (sim_total_time sim0)" using Suc.prems(3) by simp
  from Suc.prems(1) obtain trs sts idx g1 where
    run: "run_trucks (debug sim) (trucks sim) (stations sim) (curr_station_idx sim) g =
            Inr (trs, sts, idx, g1)"
    and rest: "sim_loop k (sim\<lparr>trucks := trs, stations := map decrement_queue sts,
                 curr_station_idx := idx\<rparr>) g1 = Inr (sim', g')"
    by (auto split: sum.splits)
  have "reach sim0 g0 t ([] @ trs) [] sts idx g1"
    using run_trucks_reach[OF run Suc.prems(2) t] .
  then have "reach sim0 g0 (Suc t) [] trs (map decrement_queue sts) idx g1"
    using reach.tick[of sim0 g0 t trs sts idx g1] t by simp
  then have "reach sim0 g0 (Suc t + k) [] (trucks sim') (stations sim') (curr_station_idx sim') g'"
    using Suc.IH[OF rest, of "Suc t"] Suc.prems(3) by simp
  then show ?case by simp
qed

lemma run_sim_reach:
  assumes "run_sim sim g = Inr (sim', g')"
  shows "reach sim g (unat (sim_total_time sim)) [] (trucks sim') (stations sim')
           (curr_station_idx sim') g'"
proof -
  have l: "sim_loop (unat (sim_total_time sim)) sim g = Inr (sim', g')"
    using assms by (auto simp add: run_sim_def split: sum.splits)
  show ?thesis
    using sim_loop_reach[OF l, of sim g 0] reach.start[of sim g] by simp
qed

text \<open>The outer loop on a numeral counter, for evaluating a run tick by tick.\<close>

lemma sim_loop_numeral:
  "sim_loop (numeral k) sim g =
     (case run_trucks (debug sim) (trucks sim) (stations sim) (curr_station_idx sim) g of
        Inl e \<Rightarrow> Inl e
      | Inr (trs, sts, idx, g') \<Rightarrow>
          sim_loop (pred_numeral k)
            (sim\<lparr>trucks := trs, stations := map decrement_queue sts, curr_station_idx := idx\<rparr>) g')"
  by (simp add: numeral_eq_Suc)

section \<open>The claims\<close>

subsection \<open>C1: the ledger accounts for every tick\<close>

text \<open>
  C1. For every truck, after a full run of \<open>run_sim\<close> (horizon 864 ticks), the four
  ledger fields Waiting, Unloading, Traveling and Mining read from the packed 64-bit
  \<open>total_time\<close> add up to exactly 864. The run is the body of \<open>main\<close>'s loop, for any
  fleet size, any positive number of stations, the debug flag on or off, and any draws
  of the distribution; it ends without an exception and keeps all its trucks.
\<close>

theorem ledger_total_after_run:
  assumes "rmt_range g" and "num_stations \<noteq> 0"
  shows "\<exists>sim' g'. mining_sim num_trucks num_stations dbg g = Inr (sim', g') \<and>
           length (trucks sim') = unat num_trucks \<and>
           (\<forall>tr \<in> set (trucks sim').
              waiting_time (total_time tr) + unloading_time (total_time tr) +
              traveling_time (total_time tr) + mining_time (total_time tr) = MAX_TIME)"
proof -
  obtain sim' g' where r: "mining_sim num_trucks num_stations dbg g = Inr (sim', g')"
    and inv: "sim_inv MAX_TIME [] (trucks sim') (stations sim') (curr_station_idx sim') g'"
    and len: "length (trucks sim') = unat num_trucks"
    using mining_sim_final[OF assms] by blast
  have "\<forall>tr \<in> set (trucks sim'). ledger_sum (total_time tr) = MAX_TIME"
    using inv by (simp add: sim_inv_def truck_inv_def)
  then show ?thesis using r len by (simp add: ledger_sum_def)
qed

theorem ledger_total_after_run_witness:
  "\<exists>sim' g'. mining_sim 1 1 True (\<lambda>i. 12) = Inr (sim', g') \<and>
     length (trucks sim') = 1 \<and>
     waiting_time (total_time (trucks sim' ! 0)) + unloading_time (total_time (trucks sim' ! 0)) +
     traveling_time (total_time (trucks sim' ! 0)) + mining_time (total_time (trucks sim' ! 0)) = 864"
proof -
  have g: "rmt_range (\<lambda>i. 12)"
    by (simp add: rmt_range_def ONE_HOUR_def FIVE_HOUR_def)
  obtain sim' g' where r: "mining_sim 1 1 True (\<lambda>i. 12) = Inr (sim', g')"
    and len: "length (trucks sim') = unat (1 :: 16 word)"
    and a: "\<forall>tr \<in> set (trucks sim').
              waiting_time (total_time tr) + unloading_time (total_time tr) +
              traveling_time (total_time tr) + mining_time (total_time tr) = MAX_TIME"
    using ledger_total_after_run[OF g, of 1 1 True] by auto
  have "trucks sim' ! 0 \<in> set (trucks sim')" using len by simp
  then show ?thesis using r len a by (auto simp add: MAX_TIME_def)
qed

subsection \<open>C2: one ledger field per step\<close>

text \<open>
  C2. Every call of \<open>Truck::run\<close> from a reachable configuration returns and adds
  exactly 1 to exactly one of the four ledger fields, the one of the truck's state at
  the call (Traveling for both travelling states), and leaves the other three as they
  were: no tick is counted twice or dropped.
\<close>

theorem one_field_per_step:
  assumes "rmt_range g0" and "num_stations \<noteq> 0"
    and "Simulation_ctor num_trucks num_stations dbg g0 = (sim0, g1)"
    and "reach sim0 g1 t dn (tr # todo) sts idx g"
  shows "\<exists>tr' sts' idx' g'. truck_run tr sts idx g = Inr (tr', sts', idx', g') \<and>
           waiting_time (total_time tr') =
             waiting_time (total_time tr) + (if state tr = Waiting then 1 else 0) \<and>
           unloading_time (total_time tr') =
             unloading_time (total_time tr) + (if state tr = Unloading then 1 else 0) \<and>
           traveling_time (total_time tr') =
             traveling_time (total_time tr) +
               (if state tr = TravelStation \<or> state tr = TravelMining then 1 else 0) \<and>
           mining_time (total_time tr') =
             mining_time (total_time tr) + (if state tr = Mining then 1 else 0)"
proof -
  note k = Simulation_ctor_inv[OF assms(1,2,3)]
  have inv: "sim_inv t dn (tr # todo) sts idx g"
    using reach_inv[OF assms(4) k(1) k(2)] .
  then have ti: "truck_inv (length sts) t tr" and t: "t \<le> MAX_TIME"
    and sh: "shape idx (queues sts)"
    by (simp_all add: sim_inv_def)
  have idx: "idx < length sts" using sh by (simp add: shape_def queues_def)
  have si: "station_idx tr < length sts" and ls: "ledger_sum (total_time tr) < 65535"
    using ti t by (simp_all add: truck_inv_def MAX_TIME_def)
  obtain tr' sts' idx' g' where run: "truck_run tr sts idx g = Inr (tr', sts', idx', g')"
    using truck_run_total[OF si idx] by blast
  show ?thesis
    using run truck_run_ledger[OF run ls] by blast
qed

theorem one_field_per_step_witness:
  "\<exists>tr' sts' idx' g'.
     truck_run \<lparr>state = Mining, timer = 12, total_time = 0, station_idx = 0\<rparr>
       [Station_ctor] 0 (\<lambda>i. 12) = Inr (tr', sts', idx', g') \<and>
     waiting_time (total_time tr') = 0 \<and> unloading_time (total_time tr') = 0 \<and>
     traveling_time (total_time tr') = 0 \<and> mining_time (total_time tr') = 1"
proof -
  let ?tr = "\<lparr>state = Mining, timer = 12, total_time = 0, station_idx = 0\<rparr>"
  let ?sim = "\<lparr>curr_station_idx = 0, sim_total_time = of_nat MAX_TIME, debug = False,
               stations = [Station_ctor], trucks = [?tr]\<rparr>"
  have g: "rmt_range (\<lambda>i. 12)"
    by (simp add: rmt_range_def ONE_HOUR_def FIVE_HOUR_def)
  have c: "Simulation_ctor 1 1 False (\<lambda>i. 12) = (?sim, \<lambda>i. 12)"
    by (simp add: Simulation_ctor_def Truck_ctor_def rmt_def)
  have r: "reach ?sim (\<lambda>i. 12) 0 [] (?tr # []) [Station_ctor] 0 (\<lambda>i. 12)"
    using reach.start[of ?sim "\<lambda>i. 12"] by simp
  have z: "waiting_time 0 = 0" "unloading_time 0 = 0" "traveling_time 0 = 0" "mining_time 0 = 0"
    by (simp_all add: waiting_time_nat unloading_time_nat traveling_time_nat mining_time_nat)
  show ?thesis
    using one_field_per_step[OF g _ c r] by (simp add: z)
qed

subsection \<open>C3: the cursor is at a shortest queue\<close>

text \<open>
  C3. In every reachable configuration, so after each truck's transition, the dispatcher
  cursor points at a station whose queue is minimal among all stations, and the debug
  check \<open>compare_idx_val_to_actual_min\<close> passes. In particular, when a truck completes
  TravelToStation it is assigned the station at the cursor, and that station's queue
  before its increment (the value the truck takes as its timer) is the minimum over all
  stations.
\<close>

theorem cursor_at_minimum:
  assumes "rmt_range g0" and "num_stations \<noteq> 0"
    and "Simulation_ctor num_trucks num_stations dbg g0 = (sim0, g1)"
    and "reach sim0 g1 t dn todo sts idx g"
  shows "idx < length sts \<and> (\<forall>s \<in> set sts. queue (sts ! idx) \<le> queue s) \<and>
         compare_idx_val_to_actual_min sts idx = Inr () \<and>
         (\<forall>tr rest tr' sts' idx' g'.
            todo = tr # rest \<and> truck_run tr sts idx g = Inr (tr', sts', idx', g') \<and>
            state tr = TravelStation \<and> state tr' \<noteq> TravelStation \<longrightarrow>
              station_idx tr' = idx \<and> timer tr' = queue (sts ! idx) \<and>
              (\<forall>s \<in> set sts. queue (sts ! station_idx tr') \<le> queue s))"
proof -
  note k = Simulation_ctor_inv[OF assms(1,2,3)]
  have inv: "sim_inv t dn todo sts idx g"
    using reach_inv[OF assms(4) k(1) k(2)] .
  then have sh: "shape idx (queues sts)"
    by (simp add: sim_inv_def)
  have idx: "idx < length sts" using sh by (simp add: shape_def queues_def)
  have mn: "\<forall>s \<in> set sts. queue (sts ! idx) \<le> queue s"
  proof
    fix s assume "s \<in> set sts"
    then have "unat (queue s) \<in> set (queues sts)" by (simp add: queues_def)
    from shape_min[OF sh this] show "queue (sts ! idx) \<le> queue s"
      using idx by (simp add: queues_def word_le_nat_alt)
  qed
  have arr: "station_idx tr' = idx \<and> timer tr' = queue (sts ! idx)"
    if "truck_run tr sts idx g = Inr (tr', sts', idx', g')" "state tr = TravelStation"
       "state tr' \<noteq> TravelStation" for tr tr' sts' idx' g'
    using that by (auto simp add: truck_run_TravelStation split: if_splits)
  show ?thesis
    using idx mn check_passes[OF sh] arr by (metis (no_types, lifting))
qed

theorem cursor_at_minimum_witness:
  "(1 :: nat) < length [\<lparr>queue = 1, num_trucks_unloaded = 0\<rparr>, \<lparr>queue = 0, num_trucks_unloaded = 0\<rparr>] \<and>
   queue ([\<lparr>queue = 1, num_trucks_unloaded = 0\<rparr>, \<lparr>queue = 0, num_trucks_unloaded = 0\<rparr>] ! 1)
     \<le> queue ([\<lparr>queue = 1, num_trucks_unloaded = 0\<rparr>, \<lparr>queue = 0, num_trucks_unloaded = 0\<rparr>] ! 0) \<and>
   compare_idx_val_to_actual_min
     [\<lparr>queue = 1, num_trucks_unloaded = 0\<rparr>, \<lparr>queue = 0, num_trucks_unloaded = 0\<rparr>] 1 = Inr () \<and>
   (\<exists>tr' sts' idx' g'.
      truck_run \<lparr>state = TravelStation, timer = 1, total_time = 3377721195364352, station_idx = 0\<rparr>
        [\<lparr>queue = 1, num_trucks_unloaded = 0\<rparr>, \<lparr>queue = 0, num_trucks_unloaded = 0\<rparr>] 1
        (\<lambda>i. 12) = Inr (tr', sts', idx', g') \<and>
      station_idx tr' = 1 \<and> timer tr' = 0 \<and> state tr' = Unloading \<and>
      sts' = [\<lparr>queue = 1, num_trucks_unloaded = 0\<rparr>, \<lparr>queue = 1, num_trucks_unloaded = 0\<rparr>])"
proof -
  let ?g = "\<lambda>i :: nat. 12 :: nat"
  let ?mn = "\<lparr>state = Mining, timer = 12, total_time = 0, station_idx = 0\<rparr>"
  let ?tr = "\<lparr>state = TravelStation, timer = 1, total_time = 3377721195364352, station_idx = 0\<rparr>"
  let ?tr1 = "\<lparr>state = Unloading, timer = 0, total_time = 3377725490331648, station_idx = 0\<rparr>"
  let ?s0 = "\<lparr>queue = 0, num_trucks_unloaded = 0\<rparr>"
  let ?s1 = "\<lparr>queue = 1, num_trucks_unloaded = 0\<rparr>"
  let ?sim0 = "\<lparr>curr_station_idx = 0, sim_total_time = of_nat MAX_TIME, debug = False,
                stations = [?s0, ?s0], trucks = [?mn, ?mn, ?mn]\<rparr>"
  let ?sim17 = "\<lparr>curr_station_idx = 0, sim_total_time = of_nat MAX_TIME, debug = False,
                stations = [?s0, ?s0], trucks = [?tr, ?tr, ?tr]\<rparr>"
  have g: "rmt_range ?g"
    by (simp add: rmt_range_def ONE_HOUR_def FIVE_HOUR_def)
  have u: "unat (3 :: 16 word) = 3" "unat (2 :: 16 word) = 2"
    by simp_all
  have m: "make_trucks 3 ?g = ([?mn, ?mn, ?mn], ?g)"
    by (simp add: numeral_3_eq_3 Truck_ctor_def rmt_def)
  have p: "replicate 2 Station_ctor = [?s0, ?s0]"
    by (simp add: numeral_2_eq_2 Station_ctor_def)
  have c: "Simulation_ctor 3 2 False ?g = (?sim0, ?g)"
    unfolding Simulation_ctor_def u m p by simp
  have l: "sim_loop 17 ?sim0 ?g = Inr (?sim17, ?g)"
    by (simp add: sim_loop_numeral truck_run_Mining truck_run_TravelStation decrement_queue_def
        MINING_INC_def TRAVELING_INC_def TRAVEL_TIME_def)
  have h: "0 + 17 \<le> unat (sim_total_time ?sim0)"
    by (simp add: MAX_TIME_def)
  have r17: "reach ?sim0 ?g 17 [] [?tr, ?tr, ?tr] [?s0, ?s0] 0 ?g"
    using sim_loop_reach[OF l _ h] reach.start[of ?sim0 ?g] by simp
  have s: "truck_run ?tr [?s0, ?s0] 0 ?g = Inr (?tr1, [?s1, ?s0], 1, ?g)"
    by (simp add: truck_run_TravelStation TRAVELING_INC_def)
  have t: "17 < unat (sim_total_time ?sim0)"
    by (simp add: MAX_TIME_def)
  have r: "reach ?sim0 ?g 17 ([] @ [?tr1]) [?tr, ?tr] [?s1, ?s0] 1 ?g"
    using reach.truck[OF r17 t s] .
  show ?thesis
    using cursor_at_minimum[OF g _ c r]
    by (simp add: truck_run_TravelStation TRAVELING_INC_def)
qed

subsection \<open>C4: the queue counter saturates at zero\<close>

text \<open>
  C4. \<open>decrement_queue\<close> on a station whose queue is 0 leaves the station as it is; on
  a station whose queue is positive it lowers the queue by exactly 1 and leaves the
  unloaded count alone. Read as a number, the new queue is the old one minus 1 cut off
  at 0, so the 16-bit counter never wraps below zero.
\<close>

theorem decrement_queue_saturating:
  "(queue s = 0 \<longrightarrow> decrement_queue s = s) \<and>
   (queue s \<noteq> 0 \<longrightarrow>
      unat (queue (decrement_queue s)) + 1 = unat (queue s) \<and>
      num_trucks_unloaded (decrement_queue s) = num_trucks_unloaded s) \<and>
   unat (queue (decrement_queue s)) = unat (queue s) - 1"
proof -
  have pos: "queue s \<noteq> 0 \<Longrightarrow> 0 < queue s"
    by (simp add: word_greater_zero_iff)
  have one: "queue s \<noteq> 0 \<Longrightarrow> unat (queue s - 1) = unat (queue s) - 1"
    by (simp add: unat_minus_one)
  have nz: "queue s \<noteq> 0 \<Longrightarrow> 0 < unat (queue s)"
    by (simp add: unat_gt_0)
  show ?thesis
    using pos one nz by (cases "queue s = 0") (simp_all add: decrement_queue_def)
qed

theorem decrement_queue_saturating_witness:
  "decrement_queue \<lparr>queue = 0, num_trucks_unloaded = 7\<rparr> = \<lparr>queue = 0, num_trucks_unloaded = 7\<rparr> \<and>
   unat (queue (decrement_queue \<lparr>queue = 3, num_trucks_unloaded = 7\<rparr>)) + 1 = 3"
  using decrement_queue_saturating [of "\<lparr>queue = 0, num_trucks_unloaded = 7\<rparr>"]
    decrement_queue_saturating [of "\<lparr>queue = 3, num_trucks_unloaded = 7\<rparr>"]
  by simp

subsection \<open>C5: the fixed schedule of a run\<close>

text \<open>
  C5. The simulation is constructed with \<open>total_time\<close> = MAX_TIME = 864, and
  \<open>run_sim\<close> returns (no exception ends it early) with the configuration that 864
  repetitions of the specification's tick produce: every truck's \<open>run\<close> once, in
  insertion order, and after all of them \<open>decrement_queue\<close> once on every station.
\<close>

theorem run_sim_fixed_schedule:
  assumes "rmt_range g" and "num_stations \<noteq> 0"
    and "Simulation_ctor num_trucks num_stations dbg g = (sim, g1)"
  shows "unat (sim_total_time sim) = MAX_TIME \<and>
         (\<exists>sim' g'. run_sim sim g1 = Inr (sim', g') \<and>
            (trucks sim', stations sim', curr_station_idx sim', g') =
              (spec_tick ^^ MAX_TIME) (trucks sim, stations sim, curr_station_idx sim, g1))"
proof -
  note k = Simulation_ctor_inv[OF assms]
  obtain sim' g' where r: "run_sim sim g1 = Inr (sim', g')"
    and l: "sim_loop MAX_TIME sim g1 = Inr (sim', g')"
    using run_sim_inv[OF k(1) k(2)] by blast
  show ?thesis
    using k(2) r sim_loop_spec[OF l] by blast
qed

theorem run_sim_fixed_schedule_witness:
  "\<exists>sim' g'.
     run_sim \<lparr>curr_station_idx = 0, sim_total_time = of_nat MAX_TIME, debug = True,
              stations = [Station_ctor],
              trucks = [\<lparr>state = Mining, timer = 12, total_time = 0, station_idx = 0\<rparr>]\<rparr>
       (\<lambda>i. 12) = Inr (sim', g') \<and>
     (trucks sim', stations sim', curr_station_idx sim', g') =
       (spec_tick ^^ MAX_TIME)
         ([\<lparr>state = Mining, timer = 12, total_time = 0, station_idx = 0\<rparr>], [Station_ctor], 0,
          \<lambda>i. 12)"
proof -
  let ?tr = "\<lparr>state = Mining, timer = 12, total_time = 0, station_idx = 0\<rparr>"
  let ?sim = "\<lparr>curr_station_idx = 0, sim_total_time = of_nat MAX_TIME, debug = True,
               stations = [Station_ctor], trucks = [?tr]\<rparr>"
  have g: "rmt_range (\<lambda>i. 12)"
    by (simp add: rmt_range_def ONE_HOUR_def FIVE_HOUR_def)
  have c: "Simulation_ctor 1 1 True (\<lambda>i. 12) = (?sim, \<lambda>i. 12)"
    by (simp add: Simulation_ctor_def Truck_ctor_def rmt_def)
  show ?thesis
    using run_sim_fixed_schedule[OF g _ c] by simp
qed

subsection \<open>C6: arrival at a station\<close>

text \<open>
  C6. When a truck's TravelToStation timer reaches 0 (it is 1 before the call), the
  truck records the cursor as its station index, takes that station's queue length as
  its timer, the station's queue is incremented and the cursor advances modulo the
  number of stations. The arrival tick is charged to Traveling, never to Waiting. If the
  queue length was 0 the truck is in Unloading at once; otherwise it is in Waiting, stays
  there for exactly that many further calls of \<open>run\<close>, each charged to Waiting, and
  is in Unloading after the last of them.
\<close>

theorem arrival_routes_by_queue:
  assumes "state tr = TravelStation" and "timer tr = 1" and "idx < length sts"
  shows "\<exists>tr'. truck_run tr sts idx g =
             Inr (tr', sts[idx := increment_queue (sts ! idx)], (idx + 1) mod length sts, g) \<and>
           station_idx tr' = idx \<and> timer tr' = queue (sts ! idx) \<and>
           state tr' = (if queue (sts ! idx) = 0 then Unloading else Waiting) \<and>
           total_time tr' = total_time tr + TRAVELING_INC \<and>
           waiting_time (total_time tr') = waiting_time (total_time tr) \<and>
           (\<forall>k sts2 idx2 g2. k \<le> unat (queue (sts ! idx)) \<longrightarrow>
              (\<exists>trk. truck_runs k tr' sts2 idx2 g2 = Inr (trk, sts2, idx2, g2) \<and>
                 state trk = (if k < unat (queue (sts ! idx)) then Waiting else Unloading) \<and>
                 timer trk = queue (sts ! idx) - of_nat k \<and>
                 total_time trk = total_time tr' + of_nat k * WAITING_INC \<and>
                 (waiting_time (total_time tr) + k < 65536 \<longrightarrow>
                    waiting_time (total_time trk) = waiting_time (total_time tr) + k)))"
proof -
  let ?q = "queue (sts ! idx)"
  let ?tr' = "tr\<lparr>timer := ?q, total_time := total_time tr + TRAVELING_INC, station_idx := idx,
                 state := (if ?q \<noteq> 0 then Waiting else Unloading)\<rparr>"
  have run: "truck_run tr sts idx g =
      Inr (?tr', sts[idx := increment_queue (sts ! idx)], (idx + 1) mod length sts, g)"
    using assms by (simp add: truck_run_TravelStation increment_queue_def)
  have w: "waiting_time (total_time ?tr') = waiting_time (total_time tr)"
    by (simp add: waiting_time_high)
  have it: "\<exists>trk. truck_runs k ?tr' sts2 idx2 g2 = Inr (trk, sts2, idx2, g2) \<and>
                 state trk = (if k < unat ?q then Waiting else Unloading) \<and>
                 timer trk = ?q - of_nat k \<and>
                 total_time trk = total_time ?tr' + of_nat k * WAITING_INC \<and>
                 (waiting_time (total_time tr) + k < 65536 \<longrightarrow>
                    waiting_time (total_time trk) = waiting_time (total_time tr) + k)"
    if k: "k \<le> unat ?q" for k sts2 idx2 g2
  proof (cases "?q = 0")
    case True
    then have "k = 0" using k by simp
    then show ?thesis using True w by simp
  next
    case False
    then have st: "state ?tr' = Waiting" and nz: "timer ?tr' \<noteq> 0" and k': "k \<le> unat (timer ?tr')"
      using k by simp_all
    have "waiting_time (total_time tr + TRAVELING_INC + of_nat k * WAITING_INC) =
          waiting_time (total_time tr) + k" if "waiting_time (total_time tr) + k < 65536"
      using waiting_time_many[of "total_time tr + TRAVELING_INC" k] that
      by (simp add: waiting_time_high)
    then show ?thesis
      unfolding waiting_runs[OF st nz k'] by simp
  qed
  show ?thesis
    using run w it by (intro exI[of _ ?tr']) simp
qed

theorem arrival_routes_by_queue_witness:
  "\<exists>tr'. truck_run \<lparr>state = TravelStation, timer = 1, total_time = 0, station_idx = 0\<rparr>
            [\<lparr>queue = 0, num_trucks_unloaded = 0\<rparr>, \<lparr>queue = 2, num_trucks_unloaded = 0\<rparr>] 1 (\<lambda>i. 12) =
          Inr (tr', [\<lparr>queue = 0, num_trucks_unloaded = 0\<rparr>, \<lparr>queue = 3, num_trucks_unloaded = 0\<rparr>],
               0, \<lambda>i. 12) \<and>
     station_idx tr' = 1 \<and> timer tr' = 2 \<and> state tr' = Waiting"
  using arrival_routes_by_queue[of
      "\<lparr>state = TravelStation, timer = 1, total_time = 0, station_idx = 0\<rparr>" 1
      "[\<lparr>queue = 0, num_trucks_unloaded = 0\<rparr>, \<lparr>queue = 2, num_trucks_unloaded = 0\<rparr>]" "\<lambda>i. 12"]
  by (auto simp add: increment_queue_def)

subsection \<open>C7: unloading takes one tick\<close>

text \<open>
  C7. A truck in Unloading spends exactly one call of \<open>run\<close> there: the call adds 1 to
  the Unloading field of the ledger (and nothing to the others), does not count the
  timer down but sets it to TRAVEL_TIME, moves the truck to TravelToMine, and adds
  exactly 1 to the unloaded count of the station recorded in the truck's station index.
  That station's queue, every other station, the cursor and the random source are
  unchanged.
\<close>

theorem unloading_takes_one_tick:
  assumes "state tr = Unloading" and "station_idx tr < length sts"
  shows "\<exists>tr' sts'. truck_run tr sts idx g = Inr (tr', sts', idx, g) \<and>
           state tr' = TravelMining \<and> timer tr' = of_nat TRAVEL_TIME \<and>
           station_idx tr' = station_idx tr \<and>
           total_time tr' = total_time tr + UNLOADING_INC \<and>
           (unloading_time (total_time tr) < 65535 \<longrightarrow>
              unloading_time (total_time tr') = unloading_time (total_time tr) + 1 \<and>
              waiting_time (total_time tr') = waiting_time (total_time tr) \<and>
              traveling_time (total_time tr') = traveling_time (total_time tr) \<and>
              mining_time (total_time tr') = mining_time (total_time tr)) \<and>
           length sts' = length sts \<and>
           num_trucks_unloaded (sts' ! station_idx tr) =
             num_trucks_unloaded (sts ! station_idx tr) + 1 \<and>
           (unat (num_trucks_unloaded (sts ! station_idx tr)) < 65535 \<longrightarrow>
              unat (num_trucks_unloaded (sts' ! station_idx tr)) =
                unat (num_trucks_unloaded (sts ! station_idx tr)) + 1) \<and>
           queue (sts' ! station_idx tr) = queue (sts ! station_idx tr) \<and>
           (\<forall>j. j < length sts \<and> j \<noteq> station_idx tr \<longrightarrow> sts' ! j = sts ! j)"
proof -
  let ?i = "station_idx tr"
  let ?tr' = "tr\<lparr>timer := of_nat TRAVEL_TIME, total_time := total_time tr + UNLOADING_INC,
                   state := TravelMining\<rparr>"
  let ?sts' = "sts[?i := (sts ! ?i)\<lparr>num_trucks_unloaded := num_trucks_unloaded (sts ! ?i) + 1\<rparr>]"
  have run: "truck_run tr sts idx g = Inr (?tr', ?sts', idx, g)"
    using assms by (simp add: truck_run_Unloading)
  have led: "unloading_time (total_time tr + UNLOADING_INC) = unloading_time (total_time tr) + 1 \<and>
             waiting_time (total_time tr + UNLOADING_INC) = waiting_time (total_time tr) \<and>
             traveling_time (total_time tr + UNLOADING_INC) = traveling_time (total_time tr) \<and>
             mining_time (total_time tr + UNLOADING_INC) = mining_time (total_time tr)"
    if "unloading_time (total_time tr) < 65535"
    using ledger_add[OF unat_incs(2), of "total_time tr"] that fields_lt[of "total_time tr"]
    by simp
  have inc: "unat (num_trucks_unloaded (sts ! ?i) + 1) = unat (num_trucks_unloaded (sts ! ?i)) + 1"
    if "unat (num_trucks_unloaded (sts ! ?i)) < 65535"
    using word16_inc[OF that] by simp
  show ?thesis
    using run assms(2) led inc by (intro exI[of _ ?tr'] exI[of _ ?sts']) simp
qed

theorem unloading_takes_one_tick_witness:
  "\<exists>tr' sts'. truck_run \<lparr>state = Unloading, timer = 0, total_time = 0, station_idx = 1\<rparr>
            [\<lparr>queue = 4, num_trucks_unloaded = 7\<rparr>, \<lparr>queue = 2, num_trucks_unloaded = 5\<rparr>] 0 (\<lambda>i. 12) =
          Inr (tr', sts', 0, \<lambda>i. 12) \<and>
     state tr' = TravelMining \<and> timer tr' = 6 \<and> unloading_time (total_time tr') = 1 \<and>
     num_trucks_unloaded (sts' ! 1) = 6 \<and> queue (sts' ! 1) = 2 \<and>
     sts' ! 0 = \<lparr>queue = 4, num_trucks_unloaded = 7\<rparr>"
proof -
  have z: "unloading_time 0 = 0"
    by (simp add: unloading_time_nat)
  show ?thesis
    using unloading_takes_one_tick[of
      "\<lparr>state = Unloading, timer = 0, total_time = 0, station_idx = 1\<rparr>"
      "[\<lparr>queue = 4, num_trucks_unloaded = 7\<rparr>, \<lparr>queue = 2, num_trucks_unloaded = 5\<rparr>]" 0 "\<lambda>i. 12"]
    by (auto simp add: z TRAVEL_TIME_def)
qed

subsection \<open>C8: unloaded counts\<close>

text \<open>
  C8. At the end of a run, the unloaded counts of all stations add up to the number of
  Unloading ticks of all trucks (each such tick is one load delivered, one completed
  cycle), and this number is at most the fleet size times \<open>864 div 25\<close>, 25 ticks
  being the shortest full cycle: 12 mining, 6 travelling each way, 1 unloading.
\<close>

theorem unloaded_equals_unloading_ticks:
  assumes "rmt_range g" and "num_stations \<noteq> 0"
  shows "\<exists>sim' g'. mining_sim num_trucks num_stations dbg g = Inr (sim', g') \<and>
           unloaded_total (stations sim') = unloading_total (trucks sim') \<and>
           unloaded_total (stations sim') \<le>
             unat num_trucks * (MAX_TIME div (ONE_HOUR + 2 * TRAVEL_TIME + 1))"
proof -
  obtain sim' g' where r: "mining_sim num_trucks num_stations dbg g = Inr (sim', g')"
    and inv: "sim_inv MAX_TIME [] (trucks sim') (stations sim') (curr_station_idx sim') g'"
    and len: "length (trucks sim') = unat num_trucks"
    using mining_sim_final[OF assms] by blast
  have eq: "unloaded_total (stations sim') = unloading_total (trucks sim')"
    using inv by (simp add: sim_inv_def)
  have "\<forall>tr \<in> set (trucks sim'). unloading_time (total_time tr) \<le> 34"
  proof
    fix tr assume "tr \<in> set (trucks sim')"
    then have "truck_inv (length (stations sim')) MAX_TIME tr"
      using inv by (simp add: sim_inv_def)
    from cycle_bound[OF this] show "unloading_time (total_time tr) \<le> 34"
      by (simp add: MAX_TIME_def)
  qed
  then have "unloading_total (trucks sim') \<le> length (trucks sim') * 34"
    unfolding unloading_total_def by (rule sum_list_bound)
  then show ?thesis
    using r eq len by (simp add: MAX_TIME_def ONE_HOUR_def TRAVEL_TIME_def)
qed

theorem unloaded_equals_unloading_ticks_witness:
  "\<exists>sim' g'. mining_sim 3 2 False (\<lambda>i. 12) = Inr (sim', g') \<and>
     unloaded_total (stations sim') = unloading_total (trucks sim') \<and>
     unloaded_total (stations sim') \<le> 102"
proof -
  have g: "rmt_range (\<lambda>i. 12)"
    by (simp add: rmt_range_def ONE_HOUR_def FIVE_HOUR_def)
  show ?thesis
    using unloaded_equals_unloading_ticks[OF g, of 2 3 False]
    by (simp add: MAX_TIME_def ONE_HOUR_def TRAVEL_TIME_def)
qed

subsection \<open>C10: the timer never wraps\<close>

text \<open>
  C10. In every reachable configuration, a truck about to run in one of the four states
  that count the timer down (Mining, TravelToStation, Waiting, TravelToMine) has a timer
  of at least 1, so the unsigned 16-bit decrement does not wrap. The step only ever
  leaves a truck in Waiting with a positive timer, and every mining duration drawn is
  at least ONE_HOUR = 12.
\<close>

theorem timer_never_wraps:
  assumes "rmt_range g0" and "num_stations \<noteq> 0"
    and "Simulation_ctor num_trucks num_stations dbg g0 = (sim0, g1)"
    and "reach sim0 g1 t dn (tr # todo) sts idx g"
  shows "(state tr \<noteq> Unloading \<longrightarrow>
            1 \<le> unat (timer tr) \<and> unat (timer tr - 1) = unat (timer tr) - 1) \<and>
         ONE_HOUR \<le> fst (rmt g) \<and>
         (\<forall>tr' sts' idx' g'. truck_run tr sts idx g = Inr (tr', sts', idx', g') \<longrightarrow>
            (state tr' = Waiting \<longrightarrow> 0 < unat (timer tr')) \<and>
            (state tr = TravelMining \<and> state tr' = Mining \<longrightarrow> ONE_HOUR \<le> unat (timer tr')))"
proof -
  note k = Simulation_ctor_inv[OF assms(1,2,3)]
  have inv: "sim_inv t dn (tr # todo) sts idx g"
    using reach_inv[OF assms(4) k(1) k(2)] .
  then have ti: "truck_inv (length sts) t tr" and t: "t \<le> MAX_TIME" and g: "rmt_range g"
    and sh: "shape idx (queues sts)"
    by (simp_all add: sim_inv_def)
  have t': "t < 65535" using t by (simp add: MAX_TIME_def)
  have tok: "timer_ok tr" using ti by (simp add: truck_inv_def)
  have a: "state tr \<noteq> Unloading \<longrightarrow> 1 \<le> unat (timer tr) \<and> unat (timer tr - 1) = unat (timer tr) - 1"
  proof
    assume "state tr \<noteq> Unloading"
    then have nz: "timer tr \<noteq> 0" using tok by (cases "state tr") (simp_all add: timer_ok_def)
    show "1 \<le> unat (timer tr) \<and> unat (timer tr - 1) = unat (timer tr) - 1"
      using word16_pos[OF nz] word16_dec[OF nz] by simp
  qed
  have b: "ONE_HOUR \<le> fst (rmt g)" using rmt_range_rmt[OF g] by simp
  have c: "(state tr' = Waiting \<longrightarrow> 0 < unat (timer tr')) \<and>
           (state tr = TravelMining \<and> state tr' = Mining \<longrightarrow> ONE_HOUR \<le> unat (timer tr'))"
    if run: "truck_run tr sts idx g = Inr (tr', sts', idx', g')" for tr' sts' idx' g'
  proof -
    have "timer_ok tr'" using truck_run_inv[OF run ti t' g] by (simp add: truck_inv_def)
    then have 1: "state tr' = Waiting \<longrightarrow> 0 < unat (timer tr')"
      using word16_pos[of "timer tr'"] by (auto simp add: timer_ok_def)
    have 2: "ONE_HOUR \<le> unat (timer tr')" if "state tr = TravelMining" "state tr' = Mining"
      using run that rmt_range_rmt[OF g] unat_draw(1)[of "fst (rmt g)"]
      by (auto simp add: truck_run_TravelMining split: if_splits)
    show ?thesis using 1 2 by blast
  qed
  show ?thesis using a b c by blast
qed

theorem timer_never_wraps_witness:
  "1 \<le> unat (timer \<lparr>state = Mining, timer = 12, total_time = 0, station_idx = 0\<rparr>) \<and>
   ONE_HOUR \<le> fst (rmt (\<lambda>i. 12))"
proof -
  let ?tr = "\<lparr>state = Mining, timer = 12, total_time = 0, station_idx = 0\<rparr>"
  let ?sim = "\<lparr>curr_station_idx = 0, sim_total_time = of_nat MAX_TIME, debug = False,
               stations = [Station_ctor], trucks = [?tr]\<rparr>"
  have g: "rmt_range (\<lambda>i. 12)"
    by (simp add: rmt_range_def ONE_HOUR_def FIVE_HOUR_def)
  have c: "Simulation_ctor 1 1 False (\<lambda>i. 12) = (?sim, \<lambda>i. 12)"
    by (simp add: Simulation_ctor_def Truck_ctor_def rmt_def)
  have r: "reach ?sim (\<lambda>i. 12) 0 [] (?tr # []) [Station_ctor] 0 (\<lambda>i. 12)"
    using reach.start[of ?sim "\<lambda>i. 12"] by simp
  show ?thesis
    using timer_never_wraps[OF g _ c r] by simp
qed

end
